theory Spec2Isabelle
  imports Main "HOL-Library.Sublist"
begin

section \<open>Strings\<close>

text \<open>
  A JavaScript string is a sequence of UTF-16 code units. The model uses \<^typ>\<open>string\<close>
  and reads a \<^typ>\<open>char\<close> as the code unit of the same number, so it covers the texts
  whose code units lie in the Latin-1 range (0 to 255). On that range
  \<^verbatim>\<open>toLowerCase\<close> maps \<^verbatim>\<open>A-Z\<close> and the letters 0xC0 to 0xDE (0xD7 is the
  multiplication sign) to the code unit 32 above, and the white space of \<^verbatim>\<open>\s\<close> and of
  \<^verbatim>\<open>trim\<close> is tab, line feed, vertical tab, form feed, carriage return, space and the
  no-break space 0xA0.
\<close>

definition isSpace :: "char \<Rightarrow> bool" where
  "isSpace c = (of_char c \<in> {9, 10, 11, 12, 13, 32, 160 :: nat})"

definition toLowerChar :: "char \<Rightarrow> char" where
  "toLowerChar c =
     (let n = (of_char c :: nat)
      in if (65 \<le> n \<and> n \<le> 90) \<or> (192 \<le> n \<and> n \<le> 222 \<and> n \<noteq> 215)
         then char_of (n + 32) else c)"

definition toLowerCase :: "string \<Rightarrow> string" where
  "toLowerCase s = map toLowerChar s"

definition trim :: "string \<Rightarrow> string" where
  "trim s = rev (dropWhile isSpace (rev (dropWhile isSpace s)))"

text \<open>\<^verbatim>\<open>s.replace(/\s+/g, '-')\<close>: every maximal run of white space becomes one hyphen.\<close>

function replaceSpaces :: "string \<Rightarrow> string" where
  "replaceSpaces [] = []"
| "replaceSpaces (c # cs) =
     (if isSpace c then CHR ''-'' # replaceSpaces (dropWhile isSpace cs)
      else c # replaceSpaces cs)"
  by pat_completeness auto
termination
  by (relation "measure length") (auto simp: length_dropWhile_le less_Suc_eq_le)

text \<open>\<^verbatim>\<open>s.split(sep)\<close> for a separator of one code unit: the pieces between all
  occurrences of the separator, so the result is never empty.\<close>

fun splitOn :: "char \<Rightarrow> string \<Rightarrow> string list" where
  "splitOn d [] = [[]]"
| "splitOn d (c # cs) =
     (if c = d then [] # splitOn d cs
      else (case splitOn d cs of p # ps \<Rightarrow> (c # p) # ps | [] \<Rightarrow> [[c]]))"

text \<open>\<^verbatim>\<open>parts.join(sep)\<close>.\<close>

fun joinWith :: "string \<Rightarrow> string list \<Rightarrow> string" where
  "joinWith sep [] = []"
| "joinWith sep [p] = p"
| "joinWith sep (p # q # ps) = p @ sep @ joinWith sep (q # ps)"

text \<open>
  The first occurrence of a search string: the text before it and the text after it.
  The empty search string occurs at position 0.
\<close>

fun splitFirst :: "string \<Rightarrow> string \<Rightarrow> (string \<times> string) option" where
  "splitFirst pat [] = (if pat = [] then Some ([], []) else None)"
| "splitFirst pat (c # cs) =
     (if prefix pat (c # cs) then Some ([], drop (length pat) (c # cs))
      else (case splitFirst pat cs of None \<Rightarrow> None | Some (a, b) \<Rightarrow> Some (c # a, b)))"

text \<open>
  \<^verbatim>\<open>GetSubstitution\<close> of ECMAScript for a match without capture groups: in a replacement
  string \<^verbatim>\<open>$$\<close> stands for a dollar sign, \<^verbatim>\<open>$&\<close> for the matched text,
  \<^verbatim>\<open>$`\<close> for the text before the match and \<^verbatim>\<open>$'\<close> for the text after it; any
  other dollar sign is literal.
\<close>

fun getSubstitution :: "string \<Rightarrow> string \<Rightarrow> string \<Rightarrow> string \<Rightarrow> string" where
  "getSubstitution m b a [] = []"
| "getSubstitution m b a [c] = [c]"
| "getSubstitution m b a (c # d # ds) =
     (if c = CHR ''$'' then
        (if d = CHR ''$'' then CHR ''$'' # getSubstitution m b a ds
         else if d = CHR ''&'' then m @ getSubstitution m b a ds
         else if d = CHR 0x60 then b @ getSubstitution m b a ds
         else if d = CHR 0x27 then a @ getSubstitution m b a ds
         else c # getSubstitution m b a (d # ds))
      else c # getSubstitution m b a (d # ds))"

text \<open>\<^verbatim>\<open>s.replace(pat, repl)\<close> with a string pattern and a replacement string: only the
  first occurrence is replaced, and the replacement is expanded by \<^const>\<open>getSubstitution\<close>.\<close>

definition replaceFirst :: "string \<Rightarrow> string \<Rightarrow> string \<Rightarrow> string" where
  "replaceFirst s pat repl =
     (case splitFirst pat s of
        None \<Rightarrow> s
      | Some (b, a) \<Rightarrow> b @ getSubstitution pat b a repl @ a)"

text \<open>\<^verbatim>\<open>s.slice(0, -3)\<close>.\<close>

definition dropExt :: "string \<Rightarrow> string" where
  "dropExt s = take (length s - 3) s"

definition endsWith :: "string \<Rightarrow> string \<Rightarrow> bool" where
  "endsWith s e = suffix e s"

definition startsWith :: "string \<Rightarrow> string \<Rightarrow> bool" where
  "startsWith s p = prefix p s"

section \<open>Wikilink markup\<close>

text \<open>
  The normal form of a link target: \<^verbatim>\<open>toLowerCase().replace(/\s+/g, '-')\<close>.
\<close>

definition normalize :: "string \<Rightarrow> string" where
  "normalize s = replaceSpaces (toLowerCase s)"

text \<open>
  The body of the loop of \<^verbatim>\<open>processWikilinks\<close> up to the index lookup: from the capture
  group of a match (the text between the brackets) to \<^verbatim>\<open>pageName\<close> and
  \<^verbatim>\<open>displayText\<close>.
\<close>

definition parseInner :: "string \<Rightarrow> string \<times> string" where
  "parseInner inner =
     (let fullMatch = trim inner
      in if CHR ''|'' \<in> set fullMatch then
           (let parts = splitOn (CHR ''|'') fullMatch
            in (normalize (trim (parts ! 0)), trim (parts ! 1)))
         else (normalize fullMatch, fullMatch))"

text \<open>
  One attempt of the pattern \<^verbatim>\<open>/\[\[([^\]]+)\]\]/\<close> at the start of a text: two opening
  brackets, the longest run of code units other than \<^verbatim>\<open>]\<close>, which must not be empty,
  and two closing brackets. The result is the capture group and the text after the match.
\<close>

definition matchWikilinkAt :: "string \<Rightarrow> (string \<times> string) option" where
  "matchWikilinkAt s =
     (if prefix ''[['' s then
        (let t = drop 2 s;
             inner = takeWhile (\<lambda>c. c \<noteq> CHR '']'') t;
             r = dropWhile (\<lambda>c. c \<noteq> CHR '']'') t
         in if inner \<noteq> [] \<and> prefix '']]'' r then Some (inner, drop 2 r) else None)
      else None)"

lemma matchWikilinkAt_shorter:
  "matchWikilinkAt s = Some (inner, rest) \<Longrightarrow> length rest < length s"
proof -
  assume a: "matchWikilinkAt s = Some (inner, rest)"
  have "length (dropWhile (\<lambda>c. c \<noteq> CHR '']'') (drop 2 s)) \<le> length (drop 2 s)"
    by (rule length_dropWhile_le)
  with a show ?thesis
    by (auto simp: matchWikilinkAt_def Let_def prefix_def split: if_splits)
qed

text \<open>\<^verbatim>\<open>[...content.matchAll(wikilinkRegex)]\<close>: the capture groups of the matches, found from
  left to right without overlap.\<close>

function wikilinkMatches :: "string \<Rightarrow> string list" where
  "wikilinkMatches [] = []"
| "wikilinkMatches (c # cs) =
     (case matchWikilinkAt (c # cs) of
        Some (inner, rest) \<Rightarrow> inner # wikilinkMatches rest
      | None \<Rightarrow> wikilinkMatches cs)"
  by pat_completeness auto
termination
  by (relation "measure length") (auto dest: matchWikilinkAt_shorter)

section \<open>The page index\<close>

text \<open>
  \<^verbatim>\<open>pageIndex\<close> is a plain object used as a dictionary. Its own properties are the
  entries that \<^verbatim>\<open>buildPageIndex\<close> stores, modelled as a map. A read
  \<^verbatim>\<open>pageIndex[key]\<close> that finds no own property continues in \<^verbatim>\<open>Object.prototype\<close>,
  so it yields a function or an object for the twelve names defined there, and
  \<^verbatim>\<open>undefined\<close> (here \<^const>\<open>None\<close>) otherwise. An assignment to the key
  \<^verbatim>\<open>__proto__\<close> runs the inherited setter, which ignores a string.
\<close>

type_synonym pageIndex = "string \<rightharpoonup> string"

datatype jsval = JStr string | JInherited string

definition objectPrototypeNames :: "string list" where
  "objectPrototypeNames =
     [''constructor'', ''__defineGetter__'', ''__defineSetter__'', ''hasOwnProperty'',
      ''__lookupGetter__'', ''__lookupSetter__'', ''isPrototypeOf'', ''propertyIsEnumerable'',
      ''toString'', ''valueOf'', ''__proto__'', ''toLocaleString'']"

definition indexGet :: "pageIndex \<Rightarrow> string \<Rightarrow> jsval option" where
  "indexGet idx k =
     (if k = ''__proto__'' then Some (JInherited k)
      else (case idx k of
              Some v \<Rightarrow> Some (JStr v)
            | None \<Rightarrow> if k \<in> set objectPrototypeNames then Some (JInherited k) else None))"

definition indexSet :: "pageIndex \<Rightarrow> string \<Rightarrow> string \<Rightarrow> pageIndex" where
  "indexSet idx k v = (if k = ''__proto__'' then idx else idx(k \<mapsto> v))"

text \<open>The truth value of a read in a condition: \<^verbatim>\<open>undefined\<close> and the empty string are
  false, every other string and every object is true.\<close>

fun truthy :: "jsval option \<Rightarrow> bool" where
  "truthy None = False"
| "truthy (Some (JStr v)) = (v \<noteq> [])"
| "truthy (Some (JInherited k)) = True"

text \<open>The text that a template literal puts in for a value.\<close>

fun jsToString :: "jsval \<Rightarrow> string" where
  "jsToString (JStr v) = v"
| "jsToString (JInherited k) =
     (if k = ''__proto__'' then ''[object Object]''
      else if k = ''constructor'' then ''function Object() { [native code] }''
      else ''function '' @ k @ ''() { [native code] }'')"

section \<open>Resolving wikilinks\<close>

text \<open>
  \<^verbatim>\<open>currentPagePath\<close> may be missing, so it is an option; \<^verbatim>\<open>!currentPagePath\<close> holds
  for a missing path and for the empty string.
\<close>

definition falsyPath :: "string option \<Rightarrow> bool" where
  "falsyPath cur = (cur = None \<or> cur = Some [])"

text \<open>The index lookup of the loop body: \<^verbatim>\<open>exists\<close> and \<^verbatim>\<open>linkPath\<close>.\<close>

definition resolveTarget :: "pageIndex \<Rightarrow> string option \<Rightarrow> string \<Rightarrow> bool \<times> string" where
  "resolveTarget idx cur pageName =
     (let targetPath = indexGet idx pageName
      in if truthy targetPath then (True, jsToString (the targetPath))
         else if falsyPath cur \<or> cur = Some ''home'' then (False, pageName)
         else (False, the cur @ ''/'' @ pageName))"

definition linkHtml :: "string \<Rightarrow> bool \<Rightarrow> string \<Rightarrow> string" where
  \<open>linkHtml linkPath exists displayText =
     ''<a href="/'' @ linkPath @ ''" class="'' @
     (if exists then ''wikilink'' else ''wikilink wikilink-new'') @
     ''" data-page="'' @ linkPath @ ''" data-exists="'' @
     (if exists then ''true'' else ''false'') @ ''">'' @ displayText @ ''</a>''\<close>

text \<open>One round of the loop: the anchor for a match, and the replacement of the first
  occurrence of the matched text in the content processed so far.\<close>

definition anchorFor :: "pageIndex \<Rightarrow> string option \<Rightarrow> string \<Rightarrow> string" where
  "anchorFor idx cur inner =
     (let (pageName, displayText) = parseInner inner;
          (exists, linkPath) = resolveTarget idx cur pageName
      in linkHtml linkPath exists displayText)"

definition processMatch :: "pageIndex \<Rightarrow> string option \<Rightarrow> string \<Rightarrow> string \<Rightarrow> string" where
  "processMatch idx cur processedContent inner =
     replaceFirst processedContent (''[['' @ inner @ '']]'') (anchorFor idx cur inner)"

definition processWikilinks :: "pageIndex \<Rightarrow> string \<Rightarrow> string option \<Rightarrow> string" where
  "processWikilinks idx content cur =
     foldl (processMatch idx cur) content (wikilinkMatches content)"

section \<open>Body and footer of a page\<close>

definition nl :: char where "nl = CHR 0x0A"

text \<open>
  One attempt of the pattern \<^verbatim>\<open>/\n---+\n/\<close> at the start of a text: a line feed, the
  longest run of hyphens, which must have at least three, and a line feed. The result is
  the text after the match.
\<close>

definition matchHrAt :: "string \<Rightarrow> string option" where
  "matchHrAt s =
     (case s of
        [] \<Rightarrow> None
      | c # cs \<Rightarrow>
          (let h = takeWhile (\<lambda>x. x = CHR ''-'') cs; r = dropWhile (\<lambda>x. x = CHR ''-'') cs
           in if c = nl \<and> 3 \<le> length h \<and> r \<noteq> [] \<and> hd r = nl then Some (tl r) else None))"

lemma matchHrAt_shorter: "matchHrAt s = Some rest \<Longrightarrow> length rest < length s"
proof (cases s)
  case Nil
  then show "matchHrAt s = Some rest \<Longrightarrow> length rest < length s" by (simp add: matchHrAt_def)
next
  case (Cons c cs)
  assume a: "matchHrAt s = Some rest"
  have "length (dropWhile (\<lambda>x. x = CHR ''-'') cs) \<le> length cs"
    by (rule length_dropWhile_le)
  with a Cons show "length rest < length s"
    by (auto simp: matchHrAt_def Let_def split: if_splits)
qed

text \<open>\<^verbatim>\<open>content.split(/\n---+\n/)\<close>: the pieces between the matches, found from left to
  right without overlap.\<close>

function splitHr :: "string \<Rightarrow> string list" where
  "splitHr [] = [[]]"
| "splitHr (c # cs) =
     (case matchHrAt (c # cs) of
        Some rest \<Rightarrow> [] # splitHr rest
      | None \<Rightarrow> (case splitHr cs of p # ps \<Rightarrow> (c # p) # ps | [] \<Rightarrow> [[c]]))"
  by pat_completeness auto
termination
  by (relation "measure length") (auto dest: matchHrAt_shorter)

definition hrSep :: string where
  "hrSep = [nl, CHR ''-'', CHR ''-'', CHR ''-'', nl]"

text \<open>The split of the page handler: \<^verbatim>\<open>mainContent\<close> and \<^verbatim>\<open>footerContent\<close>.\<close>

definition splitFooter :: "string \<Rightarrow> string \<times> string" where
  "splitFooter content =
     (let parts = splitHr content
      in if 1 < length parts then (joinWith hrSep (butlast parts), last parts)
         else (content, []))"

text \<open>
  Notions for the statements about \<^const>\<open>splitFooter\<close>: a delimiter is a text that
  the pattern matches as a whole; a text has a delimiter when the pattern matches
  somewhere in it; \<open>shortenHr\<close> writes every delimiter found from left to right with
  exactly three hyphens.
\<close>

definition isHr :: "string \<Rightarrow> bool" where
  "isHr d = (matchHrAt d = Some [])"

fun hasHr :: "string \<Rightarrow> bool" where
  "hasHr [] = False"
| "hasHr (c # cs) = (matchHrAt (c # cs) \<noteq> None \<or> hasHr cs)"

function shortenHr :: "string \<Rightarrow> string" where
  "shortenHr [] = []"
| "shortenHr (c # cs) =
     (case matchHrAt (c # cs) of
        Some rest \<Rightarrow> hrSep @ shortenHr rest
      | None \<Rightarrow> c # shortenHr cs)"
  by pat_completeness auto
termination
  by (relation "measure length") (auto dest: matchHrAt_shorter)

text \<open>
  The last delimiter of a text: the matches are looked for from left to right, each search
  starting where the match before ended, and the result is the text before the last match
  and the text after it, or \<open>None\<close> when there is no match.
\<close>

function lastDelimiter :: "string \<Rightarrow> (string \<times> string) option" where
  "lastDelimiter [] = None"
| "lastDelimiter (c # cs) =
     (case matchHrAt (c # cs) of
        Some rest \<Rightarrow>
          (case lastDelimiter rest of
             None \<Rightarrow> Some ([], rest)
           | Some (a, footer) \<Rightarrow>
               Some (take (length (c # cs) - length rest) (c # cs) @ a, footer))
      | None \<Rightarrow>
          (case lastDelimiter cs of
             None \<Rightarrow> None
           | Some (a, footer) \<Rightarrow> Some (c # a, footer)))"
  by pat_completeness auto
termination
  by (relation "measure length") (auto dest: matchHrAt_shorter)

section \<open>The directory tree\<close>

text \<open>
  What \<^verbatim>\<open>fs.readdir(dir, { withFileTypes: true })\<close> returns, taken recursively: the
  entries of a directory in the order of the listing, each a regular file with its content
  or a directory with its own entries. The model has no symbolic links and no special
  files, so \<^verbatim>\<open>isFile()\<close> is the negation of \<^verbatim>\<open>isDirectory()\<close>. The name of an
  entry of a real listing is not empty, has no slash and is neither \<^verbatim>\<open>.\<close> nor
  \<^verbatim>\<open>..\<close>; for such names \<^verbatim>\<open>path.join(a, name)\<close> is \<open>a\<close>, a slash and the name, or
  the name alone when \<open>a\<close> is empty.
\<close>

datatype dirent = FileEntry string string | DirEntry string "dirent list"

fun entName :: "dirent \<Rightarrow> string" where
  "entName (FileEntry n c) = n"
| "entName (DirEntry n es) = n"

fun isDirectory :: "dirent \<Rightarrow> bool" where
  "isDirectory (FileEntry n c) = False"
| "isDirectory (DirEntry n es) = True"

definition pathJoin :: "string \<Rightarrow> string \<Rightarrow> string" where
  "pathJoin a b = (if a = [] then b else a @ ''/'' @ b)"

section \<open>Building the page index\<close>

text \<open>The two stores that \<^verbatim>\<open>scanDirectory\<close> makes for one markdown file.\<close>

definition indexPage :: "pageIndex \<Rightarrow> string \<Rightarrow> string \<Rightarrow> pageIndex" where
  "indexPage idx pageName pagePathWithoutExt =
     (let idx1 = (if \<not> truthy (indexGet idx (toLowerCase pageName))
                  then indexSet idx (toLowerCase pageName) pagePathWithoutExt
                  else idx)
      in indexSet idx1 (toLowerCase pagePathWithoutExt) pagePathWithoutExt)"

fun scanDirectory :: "pageIndex \<Rightarrow> dirent list \<Rightarrow> string \<Rightarrow> pageIndex" where
  "scanDirectory idx [] relativePath = idx"
| "scanDirectory idx (DirEntry name sub # es) relativePath =
     scanDirectory (scanDirectory idx sub (pathJoin relativePath name)) es relativePath"
| "scanDirectory idx (FileEntry name content # es) relativePath =
     scanDirectory
       (if endsWith name ''.md''
        then indexPage idx (dropExt name) (dropExt (pathJoin relativePath name))
        else idx)
       es relativePath"

text \<open>\<^verbatim>\<open>buildPageIndex\<close> starts from the empty object and scans the entries of the pages
  directory.\<close>

definition buildPageIndex :: "dirent list \<Rightarrow> pageIndex" where
  "buildPageIndex pages = scanDirectory Map.empty pages []"

section \<open>Building the tree\<close>

datatype nodeType = Page | PageParent | Folder

datatype treeNode =
  TreeNode (nodeName: string) (nodePath: string) (nodeType: nodeType) (hasContent: bool)
    (children: "treeNode list")

text \<open>
  \<^verbatim>\<open>tree.sort(compare)\<close>: the sort of arrays is stable, and for a comparison that is a
  consistent order its result is that of stable insertion. \<^verbatim>\<open>localeCompare\<close> depends on
  the locale of the process, so it is a parameter.
\<close>

definition compareNodes :: "(string \<Rightarrow> string \<Rightarrow> int) \<Rightarrow> treeNode \<Rightarrow> treeNode \<Rightarrow> int" where
  "compareNodes localeCompare a b =
     (if nodeName a = ''home'' then - 1
      else if nodeName b = ''home'' then 1
      else localeCompare (nodeName a) (nodeName b))"

fun insertNode :: "(treeNode \<Rightarrow> treeNode \<Rightarrow> int) \<Rightarrow> treeNode \<Rightarrow> treeNode list \<Rightarrow> treeNode list" where
  "insertNode cmp x [] = [x]"
| "insertNode cmp x (y # ys) = (if cmp x y \<le> 0 then x # y # ys else y # insertNode cmp x ys)"

definition sortNodes :: "(treeNode \<Rightarrow> treeNode \<Rightarrow> int) \<Rightarrow> treeNode list \<Rightarrow> treeNode list" where
  "sortNodes cmp xs = foldr (insertNode cmp) xs []"

text \<open>The entries of the subdirectory of a given name.\<close>

fun lookupDir :: "string \<Rightarrow> dirent list \<Rightarrow> dirent list option" where
  "lookupDir name [] = None"
| "lookupDir name (DirEntry n sub # es) = (if n = name then Some sub else lookupDir name es)"
| "lookupDir name (FileEntry n c # es) = lookupDir name es"

lemma lookupDir_size:
  "lookupDir name es = Some sub \<Longrightarrow> size_list size sub < size_list size es"
  by (induction name es rule: lookupDir.induct) (auto split: if_splits)

text \<open>
  \<^verbatim>\<open>buildTree\<close>. The keys of the two maps are kept as lists; the set of all names keeps
  the first occurrence of each name, the markdown files first.
\<close>

function buildTree :: "(string \<Rightarrow> string \<Rightarrow> int) \<Rightarrow> dirent list \<Rightarrow> string \<Rightarrow> treeNode list" where
  "buildTree localeCompare items basePath =
     (let visible = filter (\<lambda>e. \<not> startsWith (entName e) ''.'') items;
          directories = map entName (filter isDirectory visible);
          mdFiles = map (\<lambda>e. replaceFirst (entName e) ''.md'' [])
                      (filter (\<lambda>e. \<not> isDirectory e \<and> endsWith (entName e) ''.md'') visible);
          allNames = rev (remdups (rev (mdFiles @ directories)))
      in sortNodes (compareNodes localeCompare)
           (concat (map (\<lambda>name.
              let hasMdFile = name \<in> set mdFiles;
                  hasDirectory = name \<in> set directories;
                  itemPath = pathJoin basePath name;
                  children =
                    (if hasDirectory
                     then (case lookupDir name items of
                             Some sub \<Rightarrow> buildTree localeCompare sub itemPath
                           | None \<Rightarrow> [])
                     else [])
              in if hasMdFile \<and> hasDirectory then [TreeNode name itemPath PageParent True children]
                 else if hasMdFile then [TreeNode name itemPath Page True []]
                 else if hasDirectory then [TreeNode name itemPath Folder False children]
                 else [])
             allNames)))"
  by pat_completeness auto
termination
  by (relation "measure (\<lambda>(lc, items, basePath). size_list size items)")
     (auto dest: lookupDir_size)

section \<open>Rewriting references\<close>

text \<open>
  \<^verbatim>\<open>updatePageReferences\<close> builds its patterns by putting \<^verbatim>\<open>oldName\<close> and
  \<^verbatim>\<open>oldPath\<close> into the source of a regular expression, where only the slashes of
  \<^verbatim>\<open>oldPath\<close> are escaped. The definitions below are the patterns for a name that stands
  for itself, that is a name in which no code unit is special in a pattern. For another
  name the pattern differs or is refused by \<^verbatim>\<open>new RegExp\<close>, which throws. What the two
  replacements of the loop make of the content of a file is then left to the engine of
  regular expressions, a parameter of the model (see \<open>rewriteFile\<close> below).
\<close>

definition regexLiteral :: "string \<Rightarrow> bool" where
  "regexLiteral s = (\<forall>c \<in> set s. c \<notin> set (CHR 0x5C # ''^$.*+?()[]{}|''))"

text \<open>The flag \<^verbatim>\<open>i\<close>: two code units of the Latin-1 range match without regard to case
  when their lower-case forms are equal.\<close>

definition ciPrefix :: "string \<Rightarrow> string \<Rightarrow> bool" where
  "ciPrefix pat s = prefix (toLowerCase pat) (toLowerCase s)"

fun containsCI :: "string \<Rightarrow> string \<Rightarrow> bool" where
  "containsCI pat [] = (pat = [])"
| "containsCI pat (c # cs) = (ciPrefix pat (c # cs) \<or> containsCI pat cs)"

text \<open>
  \<^verbatim>\<open>linkText.replace(new RegExp(oldName, 'gi'), newName)\<close>: every match from left to
  right without overlap is replaced by the expansion of the replacement string. The third
  argument is the text already passed, which \<^verbatim>\<open>$`\<close> refers to. After an empty match the
  search moves on by one code unit.
\<close>

function replaceAllFrom :: "string \<Rightarrow> string \<Rightarrow> string \<Rightarrow> string \<Rightarrow> string" where
  "replaceAllFrom pat repl pre [] =
     (if pat = [] then getSubstitution [] pre [] repl else [])"
| "replaceAllFrom pat repl pre (c # cs) =
     (if ciPrefix pat (c # cs) then
        (let m = take (length pat) (c # cs); after = drop (length pat) (c # cs)
         in getSubstitution m pre after repl @
            (if pat = [] then c # replaceAllFrom pat repl (pre @ [c]) cs
             else replaceAllFrom pat repl (pre @ m) after))
      else c # replaceAllFrom pat repl (pre @ [c]) cs)"
  by pat_completeness auto
termination
  by (relation "measure (\<lambda>(pat, repl, pre, s). length s)") auto

text \<open>
  One attempt of \<^verbatim>\<open>\[\[([^\]]*NAME[^\]]*)\]\]\<close> at the start of a text: two opening
  brackets, the run of code units other than \<^verbatim>\<open>]\<close>, which must contain the name
  without regard to case, and two closing brackets. The result is the capture group and
  the text after the match.
\<close>

definition matchRenameAt :: "string \<Rightarrow> string \<Rightarrow> (string \<times> string) option" where
  "matchRenameAt oldName s =
     (if prefix ''[['' s then
        (let t = drop 2 s;
             linkText = takeWhile (\<lambda>c. c \<noteq> CHR '']'') t;
             r = dropWhile (\<lambda>c. c \<noteq> CHR '']'') t
         in if prefix '']]'' r \<and> containsCI oldName linkText then Some (linkText, drop 2 r)
            else None)
      else None)"

lemma matchRenameAt_shorter:
  "matchRenameAt oldName s = Some (linkText, rest) \<Longrightarrow> length rest < length s"
proof -
  assume a: "matchRenameAt oldName s = Some (linkText, rest)"
  have "length (dropWhile (\<lambda>c. c \<noteq> CHR '']'') (drop 2 s)) \<le> length (drop 2 s)"
    by (rule length_dropWhile_le)
  with a show ?thesis
    by (auto simp: matchRenameAt_def Let_def prefix_def split: if_splits)
qed

text \<open>\<^verbatim>\<open>content.replace(wikilinkPattern, callback)\<close>: the new content, and whether the
  callback ran (it sets \<^verbatim>\<open>modified\<close>).\<close>

function rewriteWikilinks :: "string \<Rightarrow> string \<Rightarrow> string \<Rightarrow> string \<times> bool" where
  "rewriteWikilinks oldName newName [] = ([], False)"
| "rewriteWikilinks oldName newName (c # cs) =
     (case matchRenameAt oldName (c # cs) of
        Some (linkText, rest) \<Rightarrow>
          (case rewriteWikilinks oldName newName rest of
             (out, m) \<Rightarrow>
               (''[['' @ replaceAllFrom oldName newName [] linkText @ '']]'' @ out, True))
      | None \<Rightarrow>
          (case rewriteWikilinks oldName newName cs of (out, m) \<Rightarrow> (c # out, m)))"
  by pat_completeness auto
termination
  by (relation "measure (\<lambda>(oldName, newName, s). length s)") (auto dest: matchRenameAt_shorter)

text \<open>
  One attempt of \<^verbatim>\<open>(\[[^\]]+\]\()/?PATH(\))\<close> at the start of a text: an opening bracket,
  a run of code units other than \<^verbatim>\<open>]\<close> that is not empty, \<^verbatim>\<open>](\<close>, an optional slash,
  the path without regard to case, and a closing parenthesis. The result is the first
  capture group and the text after the match.
\<close>

definition matchTarget :: "string \<Rightarrow> string \<Rightarrow> string option" where
  "matchTarget oldPath a =
     (if ciPrefix oldPath a \<and> prefix '')'' (drop (length oldPath) a)
      then Some (drop (length oldPath + 1) a) else None)"

definition matchMdAt :: "string \<Rightarrow> string \<Rightarrow> (string \<times> string) option" where
  "matchMdAt oldPath s =
     (case s of
        [] \<Rightarrow> None
      | c # t \<Rightarrow>
          (let run = takeWhile (\<lambda>x. x \<noteq> CHR '']'') t;
               r = dropWhile (\<lambda>x. x \<noteq> CHR '']'') t;
               a = drop 2 r;
               found = (if prefix ''/'' a \<and> matchTarget oldPath (tl a) \<noteq> None
                        then matchTarget oldPath (tl a) else matchTarget oldPath a)
           in if c = CHR ''['' \<and> run \<noteq> [] \<and> prefix ''](''  r
              then (case found of
                      Some rest \<Rightarrow> Some (c # run @ '']('', rest)
                    | None \<Rightarrow> None)
              else None))"

lemma matchTarget_shorter: "matchTarget oldPath a = Some rest \<Longrightarrow> length rest \<le> length a"
  by (auto simp: matchTarget_def split: if_splits)

lemma matchMdAt_shorter:
  "matchMdAt oldPath s = Some (pre, rest) \<Longrightarrow> length rest < length s"
proof (cases s)
  case Nil
  then show "matchMdAt oldPath s = Some (pre, rest) \<Longrightarrow> length rest < length s"
    by (simp add: matchMdAt_def)
next
  case (Cons c t)
  assume a: "matchMdAt oldPath s = Some (pre, rest)"
  let ?a = "drop 2 (dropWhile (\<lambda>x. x \<noteq> CHR '']'') t)"
  have l: "length ?a \<le> length t"
    using length_dropWhile_le [of "\<lambda>x. x \<noteq> CHR '']''" t] by simp
  from a Cons have "matchTarget oldPath (tl ?a) = Some rest \<or> matchTarget oldPath ?a = Some rest"
    by (auto simp: matchMdAt_def Let_def split: if_splits option.splits)
  then have "length rest \<le> length ?a"
    using matchTarget_shorter [of oldPath "tl ?a" rest] matchTarget_shorter [of oldPath ?a rest]
    by auto
  with l Cons show "length rest < length s" by simp
qed

text \<open>\<^verbatim>\<open>newContent.replace(mdLinkPattern, callback)\<close>.\<close>

function rewriteMdLinks :: "string \<Rightarrow> string \<Rightarrow> string \<Rightarrow> string \<times> bool" where
  "rewriteMdLinks oldPath newPath [] = ([], False)"
| "rewriteMdLinks oldPath newPath (c # cs) =
     (case matchMdAt oldPath (c # cs) of
        Some (pre, rest) \<Rightarrow>
          (case rewriteMdLinks oldPath newPath rest of
             (out, m) \<Rightarrow> (pre @ newPath @ '')'' @ out, True))
      | None \<Rightarrow>
          (case rewriteMdLinks oldPath newPath cs of (out, m) \<Rightarrow> (c # out, m)))"
  by pat_completeness auto
termination
  by (relation "measure (\<lambda>(oldPath, newPath, s). length s)") (auto dest: matchMdAt_shorter)

text \<open>The last part of a path: \<^verbatim>\<open>parts[parts.length - 1]\<close> of \<^verbatim>\<open>path.split('/')\<close>.\<close>

definition lastSegment :: "string \<Rightarrow> string" where
  "lastSegment p = last (splitOn (CHR ''/'') p)"

text \<open>What the loop does with the content of one markdown file: \<^verbatim>\<open>finalContent\<close> and
  \<^verbatim>\<open>modified\<close>.\<close>

definition rewritePage :: "string \<Rightarrow> string \<Rightarrow> string \<Rightarrow> string \<times> bool" where
  "rewritePage oldPath newPath content =
     (case rewriteWikilinks (lastSegment oldPath) (lastSegment newPath) content of
        (newContent, m1) \<Rightarrow>
          (case rewriteMdLinks oldPath newPath newContent of
             (finalContent, m2) \<Rightarrow> (finalContent, m1 \<or> m2)))"

text \<open>
  The engine of regular expressions, for an old path with a code unit that is special in
  a pattern: from the old path, the new path and the content of a file to
  \<^verbatim>\<open>finalContent\<close> and \<^verbatim>\<open>modified\<close>, or to \<open>None\<close> when one of the calls of
  \<^verbatim>\<open>new RegExp\<close> throws. The inner pattern is built only when a wikilink matches, so
  that whether an exception is thrown can depend on the content.
\<close>

type_synonym engine = "string \<Rightarrow> string \<Rightarrow> string \<Rightarrow> (string \<times> bool) option"

definition rewriteFile :: "engine \<Rightarrow> string \<Rightarrow> string \<Rightarrow> string \<Rightarrow> (string \<times> bool) option" where
  "rewriteFile engine oldPath newPath content =
     (if regexLiteral oldPath then Some (rewritePage oldPath newPath content)
      else engine oldPath newPath content)"

text \<open>
  \<^verbatim>\<open>updateDirectory\<close>: the entries after the walk, the paths pushed to \<^verbatim>\<open>updates\<close> in
  the order of the walk, and whether the walk came to its end. An exception ends the walk
  at the file where it is thrown; the files written before stay written.
\<close>

fun updateDirectory ::
  "engine \<Rightarrow> string \<Rightarrow> string \<Rightarrow> dirent list \<Rightarrow> string \<Rightarrow> dirent list \<times> string list \<times> bool" where
  "updateDirectory engine oldPath newPath [] basePath = ([], [], True)"
| "updateDirectory engine oldPath newPath (DirEntry name sub # es) basePath =
     (if startsWith name ''.''
      then (case updateDirectory engine oldPath newPath es basePath of
              (es', us, ok) \<Rightarrow> (DirEntry name sub # es', us, ok))
      else (case updateDirectory engine oldPath newPath sub (pathJoin basePath name) of
              (sub', us1, ok1) \<Rightarrow>
                if ok1
                then (case updateDirectory engine oldPath newPath es basePath of
                        (es', us2, ok2) \<Rightarrow> (DirEntry name sub' # es', us1 @ us2, ok2))
                else (DirEntry name sub' # es, us1, False)))"
| "updateDirectory engine oldPath newPath (FileEntry name content # es) basePath =
     (if \<not> startsWith name ''.'' \<and> endsWith name ''.md''
      then (case rewriteFile engine oldPath newPath content of
              None \<Rightarrow> (FileEntry name content # es, [], False)
            | Some (finalContent, modified) \<Rightarrow>
                (case updateDirectory engine oldPath newPath es basePath of
                   (es', us, ok) \<Rightarrow>
                     if modified
                     then (FileEntry name finalContent # es',
                           replaceFirst (pathJoin basePath name) ''.md'' [] # us, ok)
                     else (FileEntry name content # es', us, ok)))
      else (case updateDirectory engine oldPath newPath es basePath of
              (es', us, ok) \<Rightarrow> (FileEntry name content # es', us, ok)))"

definition updatePageReferences ::
  "engine \<Rightarrow> string \<Rightarrow> string \<Rightarrow> dirent list \<Rightarrow> dirent list \<times> string list \<times> bool" where
  "updatePageReferences engine oldPath newPath pages =
     updateDirectory engine oldPath newPath pages []"

section \<open>The file system\<close>

text \<open>
  The handlers reach files through absolute paths that \<^verbatim>\<open>path.join\<close> has normalized,
  here with the slash of POSIX as the separator. The file system is the root directory,
  an entry whose name does not matter, and a path is the list of the names from the root.
  \<^verbatim>\<open>PAGES_DIR\<close> is such a path and a parameter of every handler. As in the directory
  tree above there are regular files and directories only, and no operation fails for
  lack of permission or space.
\<close>

text \<open>\<^verbatim>\<open>path.join(PAGES_DIR, p)\<close>: the parts of \<open>p\<close> between slashes are followed from the
  pages directory; an empty part and \<^verbatim>\<open>.\<close> stay in place, \<^verbatim>\<open>..\<close> goes up one
  directory and stays at the root.\<close>

fun normSegs :: "string list \<Rightarrow> string list \<Rightarrow> string list" where
  "normSegs acc [] = rev acc"
| "normSegs acc (s # ss) =
     (if s = [] \<or> s = ''.'' then normSegs acc ss
      else if s = ''..'' then normSegs (tl acc) ss
      else normSegs (s # acc) ss)"

definition absPath :: "string list \<Rightarrow> string \<Rightarrow> string list" where
  "absPath pagesDir p = normSegs (rev pagesDir) (splitOn (CHR ''/'') p)"

definition findEntry :: "string \<Rightarrow> dirent list \<Rightarrow> dirent option" where
  "findEntry s es = find (\<lambda>e. entName e = s) es"

fun lookupPath :: "string list \<Rightarrow> dirent \<Rightarrow> dirent option" where
  "lookupPath [] d = Some d"
| "lookupPath (s # ss) d =
     (case d of
        FileEntry n c \<Rightarrow> None
      | DirEntry n es \<Rightarrow>
          (case findEntry s es of None \<Rightarrow> None | Some e \<Rightarrow> lookupPath ss e))"

text \<open>What \<^verbatim>\<open>fs.stat\<close> and a read tell about a path: nothing there, a directory, or a file
  with its content.\<close>

datatype stat = IsDir | IsFile string

fun statOf :: "dirent \<Rightarrow> stat" where
  "statOf (FileEntry n c) = IsFile c"
| "statOf (DirEntry n es) = IsDir"

definition statPath :: "string list \<Rightarrow> dirent \<Rightarrow> stat option" where
  "statPath p root = map_option statOf (lookupPath p root)"

text \<open>A change of the first entry of a given name, the one that a lookup finds.\<close>

fun mapFirst :: "string \<Rightarrow> (dirent \<Rightarrow> dirent) \<Rightarrow> dirent list \<Rightarrow> dirent list" where
  "mapFirst s g [] = []"
| "mapFirst s g (e # es) = (if entName e = s then g e # es else e # mapFirst s g es)"

text \<open>A change of the entries of the directory at a path.\<close>

fun updateDir :: "string list \<Rightarrow> (dirent list \<Rightarrow> dirent list) \<Rightarrow> dirent \<Rightarrow> dirent" where
  "updateDir [] f d =
     (case d of FileEntry n c \<Rightarrow> d | DirEntry n es \<Rightarrow> DirEntry n (f es))"
| "updateDir (s # ss) f d =
     (case d of
        FileEntry n c \<Rightarrow> d
      | DirEntry n es \<Rightarrow> DirEntry n (mapFirst s (updateDir ss f) es))"

text \<open>The entry at a path leaves its directory; removing the root empties it.\<close>

definition removeEntry :: "string list \<Rightarrow> dirent \<Rightarrow> dirent" where
  "removeEntry p root =
     (if p = [] then updateDir [] (\<lambda>es. []) root
      else updateDir (butlast p) (filter (\<lambda>e. entName e \<noteq> last p)) root)"

text \<open>\<^verbatim>\<open>fs.unlink\<close> removes a file and throws (\<^const>\<open>None\<close>) for anything else.\<close>

definition unlink :: "string list \<Rightarrow> dirent \<Rightarrow> dirent option" where
  "unlink p root =
     (case lookupPath p root of
        Some (FileEntry n c) \<Rightarrow> Some (removeEntry p root)
      | _ \<Rightarrow> None)"

text \<open>
  \<^verbatim>\<open>fs.mkdir(dir, { recursive: true })\<close> makes the directories that are missing on the
  way and throws when a file is in the way. A new entry is listed last: the place of a new
  entry in a listing is the file system's choice.
\<close>

fun mkdirp :: "string list \<Rightarrow> dirent \<Rightarrow> dirent option" where
  "mkdirp [] d = (if isDirectory d then Some d else None)"
| "mkdirp (s # ss) d =
     (case d of
        FileEntry n c \<Rightarrow> None
      | DirEntry n es \<Rightarrow>
          (case findEntry s es of
             None \<Rightarrow>
               (case mkdirp ss (DirEntry s []) of
                  None \<Rightarrow> None
                | Some e' \<Rightarrow> Some (DirEntry n (es @ [e'])))
           | Some e \<Rightarrow>
               (case mkdirp ss e of
                  None \<Rightarrow> None
                | Some e' \<Rightarrow> Some (DirEntry n (mapFirst s (\<lambda>e. e') es)))))"

text \<open>\<^verbatim>\<open>fs.writeFile\<close> makes or overwrites a file in a directory that exists and throws when
  the path is a directory.\<close>

definition writeFile :: "string list \<Rightarrow> string \<Rightarrow> dirent \<Rightarrow> dirent option" where
  "writeFile p content root =
     (if p = [] then None
      else (case lookupPath (butlast p) root of
              Some (DirEntry n es) \<Rightarrow>
                (case findEntry (last p) es of
                   None \<Rightarrow>
                     Some (updateDir (butlast p) (\<lambda>es. es @ [FileEntry (last p) content]) root)
                 | Some (FileEntry m c) \<Rightarrow>
                     Some (updateDir (butlast p)
                             (mapFirst (last p) (\<lambda>e. FileEntry (last p) content)) root)
                 | Some (DirEntry m sub) \<Rightarrow> None)
            | _ \<Rightarrow> None))"

fun setName :: "string \<Rightarrow> dirent \<Rightarrow> dirent" where
  "setName s (FileEntry n c) = FileEntry s c"
| "setName s (DirEntry n es) = DirEntry s es"

text \<open>
  \<^verbatim>\<open>fs.rename\<close> as POSIX has it: the source must exist; renaming a path to itself does
  nothing; a directory cannot move into itself; the directory of the target must exist; a
  target that exists is replaced when it is a file and the source is one, or when it is an
  empty directory and the source is a directory. Every other case throws.
\<close>

definition fsRename :: "string list \<Rightarrow> string list \<Rightarrow> dirent \<Rightarrow> dirent option" where
  "fsRename src dst root =
     (case lookupPath src root of
        None \<Rightarrow> None
      | Some e \<Rightarrow>
          if src = dst then Some root
          else if src = [] \<or> dst = [] \<or> prefix src dst then None
          else (case lookupPath (butlast dst) root of
                  Some (DirEntry n es) \<Rightarrow>
                    (let moved =
                       updateDir (butlast dst)
                         (\<lambda>es. filter (\<lambda>x. entName x \<noteq> last dst) es @ [setName (last dst) e])
                         (removeEntry src root)
                     in case lookupPath dst root of
                          None \<Rightarrow> Some moved
                        | Some (FileEntry m c) \<Rightarrow> if isDirectory e then None else Some moved
                        | Some (DirEntry m sub) \<Rightarrow>
                            if isDirectory e \<and> sub = [] then Some moved else None)
                | _ \<Rightarrow> None))"

section \<open>The handlers\<close>

text \<open>
  The state of the server is the file system and the global \<^verbatim>\<open>pageIndex\<close>. A handler
  returns its response and the state it leaves. The errors are the responses other than
  success: \<open>Required\<close> is status 400 with a message that a field is required,
  \<open>Forbidden\<close> is status 400 for the home page, \<open>InvalidName\<close> and \<open>AlreadyExists\<close> are
  the other two messages of status 400, \<open>NotFound\<close> is status 404 and \<open>ServerError\<close> is
  status 500, sent when an exception reaches the handler's \<^verbatim>\<open>catch\<close>. A field of the
  request is a string; a field that is missing behaves as the empty string in every test
  the handlers make.
\<close>

record wiki =
  files :: dirent
  pageIndex :: pageIndex

datatype error = Required | Forbidden | InvalidName | AlreadyExists | NotFound | ServerError

text \<open>\<^verbatim>\<open>buildPageIndex\<close> as the handlers call it: an exception of the scan is caught and
  logged, and the index stays as far as it was built, which is empty when the pages
  directory cannot be listed.\<close>

definition rebuildIndex :: "string list \<Rightarrow> dirent \<Rightarrow> pageIndex" where
  "rebuildIndex pagesDir root =
     (case lookupPath pagesDir root of
        Some (DirEntry n es) \<Rightarrow> buildPageIndex es
      | _ \<Rightarrow> Map.empty)"

text \<open>\<^verbatim>\<open>if (pagePath.startsWith('/')) pagePath = pagePath.slice(1)\<close>.\<close>

definition stripSlash :: "string \<Rightarrow> string" where
  "stripSlash p = (if startsWith p ''/'' then drop 1 p else p)"

text \<open>The handler of \<^verbatim>\<open>POST /api/page/*\<close>.\<close>

definition savePage :: "string list \<Rightarrow> wiki \<Rightarrow> string \<Rightarrow> string \<Rightarrow> (error + string) \<times> wiki" where
  "savePage pagesDir st param content =
     (let pagePath = stripSlash (if param = [] then ''home'' else param);
          filePath = absPath pagesDir (pagePath @ ''.md'')
      in if content = [] then (Inl Required, st)
         else (case mkdirp (butlast filePath) (files st) of
                 None \<Rightarrow> (Inl ServerError, st)
               | Some fs1 \<Rightarrow>
                   (case writeFile filePath content fs1 of
                      None \<Rightarrow> (Inl ServerError, st\<lparr>files := fs1\<rparr>)
                    | Some fs2 \<Rightarrow> (Inr pagePath, st\<lparr>files := fs2\<rparr>))))"

text \<open>The handler of \<^verbatim>\<open>DELETE /api/page/*\<close>. Both removals are inside a \<^verbatim>\<open>try\<close> whose
  \<^verbatim>\<open>catch\<close> is empty.\<close>

definition deletePage :: "string list \<Rightarrow> wiki \<Rightarrow> string \<Rightarrow> (error + unit) \<times> wiki" where
  "deletePage pagesDir st param =
     (let pagePath = stripSlash param
      in if pagePath = ''home'' then (Inl Forbidden, st)
         else
           (let filePath = absPath pagesDir (pagePath @ ''.md'');
                folderPath = absPath pagesDir pagePath;
                fs1 = (case unlink filePath (files st) of None \<Rightarrow> files st | Some f \<Rightarrow> f);
                fs2 = (case lookupPath folderPath fs1 of
                         Some (DirEntry n es) \<Rightarrow> removeEntry folderPath fs1
                       | _ \<Rightarrow> fs1)
            in (Inr (), \<lparr>files = fs2, pageIndex = rebuildIndex pagesDir fs2\<rparr>)))"

text \<open>\<^verbatim>\<open>pageExists\<close>: \<^verbatim>\<open>fs.access\<close> succeeds for anything at the path.\<close>

definition pageExists :: "string list \<Rightarrow> dirent \<Rightarrow> string \<Rightarrow> bool" where
  "pageExists pagesDir root pagePath =
     (lookupPath (absPath pagesDir (pagePath @ ''.md'')) root \<noteq> None)"

text \<open>\<^verbatim>\<open>/^[a-z0-9-]+$/i.test(newName)\<close>.\<close>

definition nameChar :: "char \<Rightarrow> bool" where
  "nameChar c =
     (let n = (of_char c :: nat)
      in (97 \<le> n \<and> n \<le> 122) \<or> (65 \<le> n \<and> n \<le> 90) \<or> (48 \<le> n \<and> n \<le> 57) \<or> n = 45)"

definition validName :: "string \<Rightarrow> bool" where
  "validName s = (s \<noteq> [] \<and> list_all nameChar s)"

text \<open>The new path of a rename: the last part of the old path gives way to the new name
  in lower case.\<close>

definition renamedPath :: "string \<Rightarrow> string \<Rightarrow> string" where
  "renamedPath oldPath newName =
     joinWith ''/'' (butlast (splitOn (CHR ''/'') oldPath) @ [toLowerCase newName])"

text \<open>
  The handler of \<^verbatim>\<open>POST /api/rename\<close>. When the references are rewritten, the pages
  directory is listed, which throws when it is no directory. An exception while the
  references are rewritten reaches the \<^verbatim>\<open>catch\<close> of the handler, with the files written
  so far. The rename of the folder is inside a \<^verbatim>\<open>try\<close> whose \<^verbatim>\<open>catch\<close> is empty.
\<close>

definition renamePage ::
  "engine \<Rightarrow> string list \<Rightarrow> wiki \<Rightarrow> string \<Rightarrow> string \<Rightarrow> (error + string \<times> string list) \<times> wiki" where
  "renamePage engine pagesDir st oldPath newName =
     (if oldPath = [] \<or> newName = [] then (Inl Required, st)
      else if oldPath = ''home'' then (Inl Forbidden, st)
      else if \<not> validName newName then (Inl InvalidName, st)
      else
        (let newPath = renamedPath oldPath newName;
             oldFilePath = absPath pagesDir (oldPath @ ''.md'');
             newFilePath = absPath pagesDir (newPath @ ''.md'');
             oldFolderPath = absPath pagesDir oldPath;
             newFolderPath = absPath pagesDir newPath
         in if pageExists pagesDir (files st) newPath then (Inl AlreadyExists, st)
            else if lookupPath oldFilePath (files st) = None then (Inl NotFound, st)
            else
              (case lookupPath pagesDir (files st) of
                 Some (DirEntry n pages) \<Rightarrow>
                   (case updatePageReferences engine oldPath newPath pages of
                      (pages', updatedPages, ok) \<Rightarrow>
                        (let fs1 = updateDir pagesDir (\<lambda>es. pages') (files st)
                         in if \<not> ok then (Inl ServerError, st\<lparr>files := fs1\<rparr>)
                            else
                              (case fsRename oldFilePath newFilePath fs1 of
                                 None \<Rightarrow> (Inl ServerError, st\<lparr>files := fs1\<rparr>)
                               | Some fs2 \<Rightarrow>
                                   (let fs3 =
                                      (if lookupPath oldFolderPath fs2 = None then fs2
                                       else (case fsRename oldFolderPath newFolderPath fs2 of
                                               None \<Rightarrow> fs2
                                             | Some f \<Rightarrow> f))
                                    in (Inr (newPath, updatedPages),
                                        \<lparr>files = fs3,
                                         pageIndex = rebuildIndex pagesDir fs3\<rparr>)))))
               | _ \<Rightarrow> (Inl ServerError, st))))"

section \<open>Notions for the statements about the index\<close>

text \<open>
  The markdown files that the scan of the index visits, in the order of the walk, each
  with \<^verbatim>\<open>pageName\<close> and \<^verbatim>\<open>pagePathWithoutExt\<close>.
\<close>

fun walkPages :: "dirent list \<Rightarrow> string \<Rightarrow> (string \<times> string) list" where
  "walkPages [] relativePath = []"
| "walkPages (DirEntry name sub # es) relativePath =
     walkPages sub (pathJoin relativePath name) @ walkPages es relativePath"
| "walkPages (FileEntry name content # es) relativePath =
     (if endsWith name ''.md''
      then [(dropExt name, dropExt (pathJoin relativePath name))]
      else []) @ walkPages es relativePath"

text \<open>
  The path that a key stands for after the scan of a list of pages: the path of the last
  page whose lower-case path is the key, or else the path of the first page whose
  lower-case name is the key.
\<close>

definition indexWinner :: "string \<Rightarrow> (string \<times> string) list \<Rightarrow> string option" where
  "indexWinner k ps =
     (case filter (\<lambda>(n, p). toLowerCase p = k) ps of
        [] \<Rightarrow> (case filter (\<lambda>(n, p). toLowerCase n = k) ps of
                 [] \<Rightarrow> None
               | h # hs \<Rightarrow> Some (snd h))
      | h # hs \<Rightarrow> Some (snd (last (h # hs))))"

section \<open>Notions for the statements about the tree\<close>

text \<open>A node with all nodes below it, and the part of the rule on node types that every
  node of a built tree obeys.\<close>

fun treeNodes :: "treeNode \<Rightarrow> treeNode list" where
  "treeNodes (TreeNode n p t h cs) = TreeNode n p t h cs # concat (map treeNodes cs)"

definition typeRule :: "treeNode \<Rightarrow> bool" where
  "typeRule n =
     ((nodeType n = Folder \<longleftrightarrow> \<not> hasContent n) \<and>
      (nodeType n = Page \<longrightarrow> children n = []) \<and>
      (hasContent n \<and> children n \<noteq> [] \<longrightarrow> nodeType n = PageParent))"

section \<open>The rewriting of references in the words of the specification\<close>

text \<open>
  Every occurrence of a name that is not empty, without regard to case and from left to
  right without overlap, gives way to the new name.
\<close>

function specReplaceAll :: "string \<Rightarrow> string \<Rightarrow> string \<Rightarrow> string" where
  "specReplaceAll old new [] = []"
| "specReplaceAll old new (c # cs) =
     (if old \<noteq> [] \<and> ciPrefix old (c # cs)
      then new @ specReplaceAll old new (drop (length old) (c # cs))
      else c # specReplaceAll old new cs)"
  by pat_completeness auto
termination
  by (relation "measure (\<lambda>(old, new, s). length s)") auto

text \<open>
  The wikilinks of a text are the matches of the resolver's pattern
  (\<^const>\<open>matchWikilinkAt\<close>). In each wikilink whose inner text contains the old name, the
  occurrences of the old name give way to the new name; every other part of the text stays.
\<close>

function specWikilinks :: "string \<Rightarrow> string \<Rightarrow> string \<Rightarrow> string" where
  "specWikilinks old new [] = []"
| "specWikilinks old new (c # cs) =
     (case matchWikilinkAt (c # cs) of
        Some (inner, rest) \<Rightarrow>
          ''[['' @ (if containsCI old inner then specReplaceAll old new inner else inner) @ '']]'' @
          specWikilinks old new rest
      | None \<Rightarrow> c # specWikilinks old new cs)"
  by pat_completeness auto
termination
  by (relation "measure (\<lambda>(old, new, s). length s)") (auto dest: matchWikilinkAt_shorter)

text \<open>Some wikilink of the text has the old name in its inner text.\<close>

definition wikilinkHit :: "string \<Rightarrow> string \<Rightarrow> bool" where
  "wikilinkHit old s = list_ex (containsCI old) (wikilinkMatches s)"

text \<open>
  A markdown link at the start of a text: an opening bracket, the text of the link, which
  is not empty and has no closing bracket, a closing bracket and an opening parenthesis,
  the target, which runs up to the next closing parenthesis, and that parenthesis. The
  result is the text of the link, its target and what follows the link.
\<close>

definition mdLinkAt :: "string \<Rightarrow> (string \<times> string \<times> string) option" where
  "mdLinkAt s =
     (if prefix ''['' s then
        (let t = drop 1 s;
             label = takeWhile (\<lambda>c. c \<noteq> CHR '']'') t;
             r = dropWhile (\<lambda>c. c \<noteq> CHR '']'') t;
             u = drop 2 r;
             target = takeWhile (\<lambda>c. c \<noteq> CHR '')'') u;
             v = dropWhile (\<lambda>c. c \<noteq> CHR '')'') u
         in if label \<noteq> [] \<and> prefix '']('' r \<and> v \<noteq> [] then Some (label, target, drop 1 v)
            else None)
      else None)"

lemma mdLinkAt_shorter:
  "mdLinkAt s = Some (label, target, rest) \<Longrightarrow> length rest < length s"
proof -
  assume a: "mdLinkAt s = Some (label, target, rest)"
  let ?r = "dropWhile (\<lambda>c. c \<noteq> CHR '']'') (drop 1 s)"
  let ?v = "dropWhile (\<lambda>c. c \<noteq> CHR '')'') (drop 2 ?r)"
  have "length ?v \<le> length (drop 2 ?r)" by (rule length_dropWhile_le)
  moreover have "length ?r \<le> length (drop 1 s)" by (rule length_dropWhile_le)
  moreover from a have "?v \<noteq> []" "rest = drop 1 ?v" "s \<noteq> []"
    by (auto simp: mdLinkAt_def Let_def split: if_splits)
  ultimately show ?thesis by (cases ?v; cases s) auto
qed

text \<open>The target of a link is the old path, with or without a leading slash, and without
  regard to case.\<close>

definition targetIs :: "string \<Rightarrow> string \<Rightarrow> bool" where
  "targetIs oldPath target =
     (toLowerCase target = toLowerCase oldPath \<or>
      toLowerCase target = toLowerCase (''/'' @ oldPath))"

text \<open>
  Each markdown link whose target is the old path gets the new path as its target; the
  links are looked for from left to right, and every other part of the text stays.
\<close>

function specMdLinks :: "string \<Rightarrow> string \<Rightarrow> string \<Rightarrow> string" where
  "specMdLinks oldPath newPath [] = []"
| "specMdLinks oldPath newPath (c # cs) =
     (case mdLinkAt (c # cs) of
        Some (label, target, rest) \<Rightarrow>
          if targetIs oldPath target
          then ''['' @ label @ '']('' @ newPath @ '')'' @ specMdLinks oldPath newPath rest
          else c # specMdLinks oldPath newPath cs
      | None \<Rightarrow> c # specMdLinks oldPath newPath cs)"
  by pat_completeness auto
termination
  by (relation "measure (\<lambda>(oldPath, newPath, s). length s)") (auto dest: mdLinkAt_shorter)

text \<open>Some markdown link of the text has the old path as its target.\<close>

fun mdLinkHit :: "string \<Rightarrow> string \<Rightarrow> bool" where
  "mdLinkHit oldPath [] = False"
| "mdLinkHit oldPath (c # cs) =
     ((case mdLinkAt (c # cs) of
         Some (label, target, rest) \<Rightarrow> targetIs oldPath target
       | None \<Rightarrow> False) \<or>
      mdLinkHit oldPath cs)"

text \<open>The content of a page after both substitutions, the one on the wikilinks first, and
  whether one of them applied.\<close>

definition specRewrite :: "string \<Rightarrow> string \<Rightarrow> string \<Rightarrow> string" where
  "specRewrite oldPath newPath content =
     specMdLinks oldPath newPath
       (specWikilinks (lastSegment oldPath) (lastSegment newPath) content)"

definition affected :: "string \<Rightarrow> string \<Rightarrow> string \<Rightarrow> bool" where
  "affected oldPath newPath content =
     (wikilinkHit (lastSegment oldPath) content \<or>
      mdLinkHit oldPath
        (specWikilinks (lastSegment oldPath) (lastSegment newPath) content))"

text \<open>
  The pages of the corpus: the markdown files of the tree outside every entry that starts
  with a dot, in the order of the walk, each with its path below the pages directory and
  its content. \<open>mapPages\<close> changes the content of each of them and nothing else.
\<close>

fun pageFiles :: "dirent list \<Rightarrow> string \<Rightarrow> (string \<times> string) list" where
  "pageFiles [] basePath = []"
| "pageFiles (DirEntry name sub # es) basePath =
     (if startsWith name ''.'' then [] else pageFiles sub (pathJoin basePath name)) @
     pageFiles es basePath"
| "pageFiles (FileEntry name content # es) basePath =
     (if \<not> startsWith name ''.'' \<and> endsWith name ''.md''
      then [(pathJoin basePath name, content)] else []) @
     pageFiles es basePath"

fun mapPages :: "(string \<Rightarrow> string) \<Rightarrow> dirent list \<Rightarrow> dirent list" where
  "mapPages f [] = []"
| "mapPages f (DirEntry name sub # es) =
     DirEntry name (if startsWith name ''.'' then sub else mapPages f sub) # mapPages f es"
| "mapPages f (FileEntry name content # es) =
     FileEntry name (if \<not> startsWith name ''.'' \<and> endsWith name ''.md'' then f content else content) #
     mapPages f es"

section \<open>An example wiki\<close>

text \<open>A small wiki for the instances below: a home page, and a page \<^verbatim>\<open>guides\<close> that is
  a directory as well and holds the page \<^verbatim>\<open>guides/intro\<close>.\<close>

definition examplePagesDir :: "string list" where
  "examplePagesDir = [''srv'', ''wiki'', ''pages'']"

definition examplePages :: "dirent list" where
  "examplePages =
     [FileEntry ''home.md'' ''see [[guides]] and [[Intro]] and [[notes]]'',
      FileEntry ''guides.md'' ''the guides'',
      DirEntry ''guides'' [FileEntry ''intro.md'' ''back to [[guides]] or [up](guides)'']]"

definition exampleRoot :: dirent where
  "exampleRoot = DirEntry [] [DirEntry ''srv'' [DirEntry ''wiki'' [DirEntry ''pages'' examplePages]]]"

definition exampleWiki :: wiki where
  "exampleWiki = \<lparr>files = exampleRoot, pageIndex = rebuildIndex examplePagesDir exampleRoot\<rparr>"

text \<open>The directory tree without the contents of its files.\<close>

fun shape :: "dirent \<Rightarrow> dirent" where
  "shape (FileEntry n c) = FileEntry n []"
| "shape (DirEntry n es) = DirEntry n (map shape es)"

section \<open>Splitting and joining\<close>

lemma splitOn_nonempty: "splitOn d s \<noteq> []"
  by (induction s) (auto split: list.splits)

lemma splitOn_hd: "hd (splitOn d s) = takeWhile (\<lambda>c. c \<noteq> d) s"
  by (induction s) (auto split: list.splits simp: splitOn_nonempty)

lemma splitOn_tl:
  "d \<in> set s \<Longrightarrow> tl (splitOn d s) = splitOn d (tl (dropWhile (\<lambda>c. c \<noteq> d) s))"
  by (induction s) (auto split: list.splits simp: splitOn_nonempty)

lemma splitOn_nth0: "splitOn d s ! 0 = takeWhile (\<lambda>c. c \<noteq> d) s"
  using splitOn_hd [of d s] splitOn_nonempty [of d s] by (simp add: hd_conv_nth)

lemma splitOn_nth1:
  assumes "d \<in> set s"
  shows "splitOn d s ! Suc 0 = takeWhile (\<lambda>c. c \<noteq> d) (tl (dropWhile (\<lambda>c. c \<noteq> d) s))"
proof -
  obtain p ps where ps: "splitOn d s = p # ps"
    using splitOn_nonempty [of d s] by (cases "splitOn d s") auto
  have "ps = splitOn d (tl (dropWhile (\<lambda>c. c \<noteq> d) s))"
    using splitOn_tl [OF assms] ps by simp
  then have "ps ! 0 = takeWhile (\<lambda>c. c \<noteq> d) (tl (dropWhile (\<lambda>c. c \<noteq> d) s))"
    by (simp add: splitOn_nth0)
  then show ?thesis using ps by simp
qed

lemma splitOn_append_last:
  "d \<notin> set b \<Longrightarrow> splitOn d (a @ b) = butlast (splitOn d a) @ [last (splitOn d a) @ b]"
proof (induction a)
  case Nil
  then show ?case by (induction b) (auto split: list.splits)
next
  case (Cons c a)
  then show ?case using splitOn_nonempty [of d a] splitOn_nonempty [of d "a @ b"]
    by (auto split: list.splits)
qed

lemma splitOn_no_sep: "p \<in> set (splitOn d s) \<Longrightarrow> d \<notin> set p"
proof (induction s arbitrary: p)
  case Nil
  then show ?case by simp
next
  case (Cons c s)
  then show ?case using splitOn_nonempty [of d s]
    by (auto split: if_splits list.splits)
qed

lemma splitOn_sep_free: "d \<notin> set p \<Longrightarrow> splitOn d p = [p]"
  by (induction p) auto

lemma splitOn_append_sep:
  "d \<notin> set p \<Longrightarrow> splitOn d (p @ d # rest) = p # splitOn d rest"
  by (induction p) auto

lemma splitOn_joinWith:
  "ps \<noteq> [] \<Longrightarrow> \<forall>p \<in> set ps. CHR ''/'' \<notin> set p \<Longrightarrow> splitOn (CHR ''/'') (joinWith ''/'' ps) = ps"
proof (induction "''/''" ps rule: joinWith.induct)
  case 1
  then show ?case by simp
next
  case (2 p)
  then show ?case by (simp add: splitOn_sep_free)
next
  case (3 p q ps)
  then show ?case using splitOn_append_sep [of "CHR ''/''" p "joinWith ''/'' (q # ps)"] by simp
qed

lemma joinWith_splitOn: "joinWith ''/'' (splitOn (CHR ''/'') s) = s"
proof (induction s)
  case Nil
  then show ?case by simp
next
  case (Cons c s)
  obtain p ps where ps: "splitOn (CHR ''/'') s = p # ps"
    using splitOn_nonempty [of "CHR ''/''" s] by (cases "splitOn (CHR ''/'') s") auto
  show ?case
  proof (cases "c = CHR ''/''")
    case True
    then show ?thesis using Cons ps by simp
  next
    case False
    then show ?thesis using Cons ps by (cases ps) auto
  qed
qed

lemma joinWith_snoc:
  "joinWith sep (xs @ [l]) = (if xs = [] then l else joinWith sep xs @ sep @ l)"
  by (induction sep xs rule: joinWith.induct) auto

section \<open>Scanning up to a closing bracket\<close>

lemma takeWhile_closing:
  "CHR '']'' \<notin> set x \<Longrightarrow> takeWhile (\<lambda>c. c \<noteq> CHR '']'') (x @ CHR '']'' # r) = x"
  by (induction x) auto

lemma dropWhile_closing:
  "CHR '']'' \<notin> set x \<Longrightarrow> dropWhile (\<lambda>c. c \<noteq> CHR '']'') (x @ CHR '']'' # r) = CHR '']'' # r"
  by (induction x) auto

section \<open>Replacement strings without a dollar sign\<close>

lemma getSubstitution_plain: "CHR ''$'' \<notin> set repl \<Longrightarrow> getSubstitution m b a repl = repl"
  by (induction m b a repl rule: getSubstitution.induct) auto

section \<open>Characters of a page name\<close>

lemma of_char_toLowerChar:
  "of_char (toLowerChar c) =
     (let n = (of_char c :: nat)
      in if (65 \<le> n \<and> n \<le> 90) \<or> (192 \<le> n \<and> n \<le> 222 \<and> n \<noteq> 215) then n + 32 else n)"
proof -
  have "(of_char c :: nat) < 256" by simp
  then show ?thesis
    by (auto simp: toLowerChar_def Let_def)
qed

lemma nameChar_lower_noslash: "nameChar c \<Longrightarrow> toLowerChar c \<noteq> CHR ''/''"
proof
  assume n: "nameChar c" and e: "toLowerChar c = CHR ''/''"
  from e have "(of_char (toLowerChar c) :: nat) = 47" by simp
  with n show False unfolding of_char_toLowerChar nameChar_def Let_def
    by (auto split: if_splits)
qed

lemma nameChar_lower_nospace: "nameChar c \<Longrightarrow> \<not> isSpace (toLowerChar c)"
  unfolding isSpace_def of_char_toLowerChar nameChar_def Let_def
  by (auto split: if_splits)

lemma validName_noslash: "validName n \<Longrightarrow> CHR ''/'' \<notin> set (toLowerCase n)"
  using nameChar_lower_noslash by (fastforce simp: validName_def toLowerCase_def list_all_iff)

lemma replaceSpaces_id: "\<forall>c \<in> set s. \<not> isSpace c \<Longrightarrow> replaceSpaces s = s"
  by (induction s) auto

lemma validName_normalize: "validName n \<Longrightarrow> normalize n = toLowerCase n"
  unfolding normalize_def
  by (rule replaceSpaces_id) (auto simp: validName_def toLowerCase_def list_all_iff nameChar_lower_nospace)

section \<open>Paths and lookups\<close>

lemma normSegs_snoc:
  "l \<noteq> [] \<Longrightarrow> l \<noteq> ''.'' \<Longrightarrow> l \<noteq> ''..'' \<Longrightarrow> normSegs acc (xs @ [l]) = normSegs acc xs @ [l]"
  by (induction xs arbitrary: acc) auto

lemma absPath_md:
  "absPath pagesDir (p @ ''.md'') =
     normSegs (rev pagesDir) (butlast (splitOn (CHR ''/'') p)) @ [lastSegment p @ ''.md'']"
proof -
  have "splitOn (CHR ''/'') (p @ ''.md'') =
      butlast (splitOn (CHR ''/'') p) @ [last (splitOn (CHR ''/'') p) @ ''.md'']"
    by (rule splitOn_append_last) simp
  moreover have "last (splitOn (CHR ''/'') p) @ ''.md'' \<noteq> []"
    "last (splitOn (CHR ''/'') p) @ ''.md'' \<noteq> ''.''" "last (splitOn (CHR ''/'') p) @ ''.md'' \<noteq> ''..''"
    by (auto simp: append_eq_Cons_conv)
  ultimately show ?thesis by (simp add: absPath_def lastSegment_def normSegs_snoc)
qed

lemma absPath_md_nonempty: "absPath pagesDir (p @ ''.md'') \<noteq> []"
  by (simp add: absPath_md)

lemma entName_updateDir: "entName (updateDir p f e) = entName e"
  by (cases p; cases e) auto

lemma statOf_updateDir: "statOf (updateDir p f e) = statOf e"
  by (cases p; cases e) auto

lemma findEntry_mapFirst:
  "(\<And>e. entName (g e) = entName e) \<Longrightarrow>
   findEntry s' (mapFirst s g es) =
     (if s' = s then map_option g (findEntry s es) else findEntry s' es)"
  by (induction es) (auto simp: findEntry_def)

lemma findEntry_mapFirst_const:
  "entName e' = s \<Longrightarrow> findEntry s es \<noteq> None \<Longrightarrow> findEntry s (mapFirst s (\<lambda>e. e') es) = Some e'"
  by (induction es) (auto simp: findEntry_def)

lemma findEntry_filter:
  "findEntry s' (filter (\<lambda>e. entName e \<noteq> s) es) = (if s' = s then None else findEntry s' es)"
  by (induction es) (auto simp: findEntry_def)

lemma findEntry_append_new:
  "findEntry s es = None \<Longrightarrow> entName e' = s \<Longrightarrow> findEntry s (es @ [e']) = Some e'"
  by (induction es) (auto simp: findEntry_def split: if_splits)

lemma lookupPath_append:
  "lookupPath (d @ q) root =
     (case lookupPath d root of None \<Rightarrow> None | Some e \<Rightarrow> lookupPath q e)"
  by (induction d arbitrary: root) (auto split: dirent.splits option.splits)

lemma lookupPath_updateDir:
  "lookupPath (d @ q) (updateDir d f root) =
     (case lookupPath d root of None \<Rightarrow> None | Some e \<Rightarrow> lookupPath q (updateDir [] f e))"
proof (induction d arbitrary: root)
  case Nil
  then show ?case by simp
next
  case (Cons s ss)
  show ?case
  proof (cases root)
    case (FileEntry n c)
    then show ?thesis by simp
  next
    case (DirEntry n es)
    have "findEntry s (mapFirst s (updateDir ss f) es) = map_option (updateDir ss f) (findEntry s es)"
      by (simp add: findEntry_mapFirst entName_updateDir)
    then show ?thesis using DirEntry Cons by (auto split: option.splits)
  qed
qed

lemma statPath_updateDir_frame:
  "\<not> prefix d q \<Longrightarrow> statPath q (updateDir d f root) = statPath q root"
proof (induction d arbitrary: q root)
  case Nil
  then show ?case by simp
next
  case (Cons s ss)
  show ?case
  proof (cases q)
    case Nil
    then show ?thesis using statOf_updateDir [of "s # ss" f root] by (simp add: statPath_def)
  next
    case q: (Cons t ts)
    show ?thesis
    proof (cases root)
      case (FileEntry n c)
      then show ?thesis by simp
    next
      case (DirEntry n es)
      show ?thesis
      proof (cases "t = s")
        case True
        with Cons.prems q have np: "\<not> prefix ss ts" by simp
        have "findEntry s (mapFirst s (updateDir ss f) es) = map_option (updateDir ss f) (findEntry s es)"
          by (simp add: findEntry_mapFirst entName_updateDir)
        then show ?thesis using DirEntry q True Cons.IH [OF np]
          by (auto simp: statPath_def split: option.splits)
      next
        case False
        have "findEntry t (mapFirst s (updateDir ss f) es) = findEntry t es"
          using False by (simp add: findEntry_mapFirst entName_updateDir)
        then show ?thesis using DirEntry q by (simp add: statPath_def)
      qed
    qed
  qed
qed

lemma lookup_in_removed:
  "lookupPath (s # q) (updateDir [] (filter (\<lambda>e. entName e \<noteq> s)) e) = None"
  by (cases e) (auto simp: findEntry_filter)

lemma removeEntry_gone:
  assumes "p \<noteq> []"
  shows "lookupPath (p @ q) (removeEntry p root) = None"
proof -
  have e: "p @ q = butlast p @ (last p # q)" using assms by simp
  have "lookupPath (butlast p @ (last p # q))
          (updateDir (butlast p) (filter (\<lambda>e. entName e \<noteq> last p)) root) = None"
    unfolding lookupPath_updateDir
    by (simp add: lookup_in_removed del: updateDir.simps lookupPath.simps split: option.splits)
  then show ?thesis unfolding e removeEntry_def using assms by simp
qed

lemma removeEntry_root_gone:
  "q \<noteq> [] \<Longrightarrow> lookupPath q (removeEntry [] root) = None"
  by (cases q; cases root) (auto simp: removeEntry_def findEntry_def)

lemma stat_other_name:
  "t \<noteq> s \<Longrightarrow>
   statPath (t # ts) (updateDir [] (filter (\<lambda>e. entName e \<noteq> s)) e) = statPath (t # ts) e"
  by (cases e) (auto simp: statPath_def findEntry_filter)

lemma removeEntry_frame:
  assumes "\<not> prefix p q"
  shows "statPath q (removeEntry p root) = statPath q root"
proof (cases "p = []")
  case True
  with assms show ?thesis by simp
next
  case False
  let ?d = "butlast p" and ?s = "last p"
  let ?f = "filter (\<lambda>e. entName e \<noteq> ?s)"
  have r: "removeEntry p root = updateDir ?d ?f root" using False by (simp add: removeEntry_def)
  show ?thesis
  proof (cases "prefix ?d q")
    case np: False
    then show ?thesis unfolding r by (rule statPath_updateDir_frame)
  next
    case True
    then obtain r' where q: "q = ?d @ r'" by (auto simp: prefix_def)
    have "r' = [] \<or> (\<exists>t ts. r' = t # ts \<and> t \<noteq> ?s)"
    proof (cases r')
      case Nil
      then show ?thesis by simp
    next
      case (Cons t ts)
      have "t \<noteq> ?s"
      proof
        assume "t = ?s"
        then have "q = p @ ts" using q Cons False by simp
        with assms show False by simp
      qed
      with Cons show ?thesis by simp
    qed
    then show ?thesis
    proof
      assume "r' = []"
      then have "statPath q (updateDir ?d ?f root) =
          map_option statOf (case lookupPath ?d root of None \<Rightarrow> None
                             | Some e \<Rightarrow> lookupPath [] (updateDir [] ?f e))"
        using lookupPath_updateDir [of ?d "[]" ?f root] q by (simp add: statPath_def)
      also have "\<dots> = statPath q root"
        using q \<open>r' = []\<close> statOf_updateDir [of "[]" ?f]
        by (auto simp: statPath_def split: option.splits)
      finally show ?thesis unfolding r .
    next
      assume "\<exists>t ts. r' = t # ts \<and> t \<noteq> ?s"
      then obtain t ts where r': "r' = t # ts" "t \<noteq> ?s" by blast
      have "statPath q (updateDir ?d ?f root) =
          (case lookupPath ?d root of None \<Rightarrow> None
           | Some e \<Rightarrow> statPath (t # ts) (updateDir [] ?f e))"
        unfolding q r' statPath_def lookupPath_updateDir by (simp split: option.splits)
      also have "\<dots> = (case lookupPath ?d root of None \<Rightarrow> None | Some e \<Rightarrow> statPath (t # ts) e)"
        using stat_other_name [OF r'(2)] by (simp split: option.splits)
      also have "\<dots> = statPath q root"
        unfolding q r' statPath_def lookupPath_append by (simp split: option.splits)
      finally show ?thesis unfolding r .
    qed
  qed
qed

lemma writeFile_stat:
  assumes "writeFile p c root = Some root'"
  shows "statPath p root' = Some (IsFile c)"
proof -
  from assms have p: "p \<noteq> []" by (auto simp: writeFile_def split: if_splits)
  then have pp: "p = butlast p @ [last p]" by simp
  from assms p obtain n es where d: "lookupPath (butlast p) root = Some (DirEntry n es)"
    by (auto simp: writeFile_def split: if_splits option.splits dirent.splits)
  let ?new = "FileEntry (last p) c"
  show ?thesis
  proof (cases "findEntry (last p) es")
    case None
    with assms p d have r: "root' = updateDir (butlast p) (\<lambda>es. es @ [?new]) root"
      by (simp add: writeFile_def)
    have "lookupPath (butlast p @ [last p]) root' = Some ?new"
      unfolding r lookupPath_updateDir using d None
      by (simp add: findEntry_append_new)
    then show ?thesis using pp by (simp add: statPath_def)
  next
    case (Some e)
    with assms p d obtain m c' where e: "e = FileEntry m c'"
      by (cases e) (auto simp: writeFile_def)
    with assms p d Some have r: "root' = updateDir (butlast p) (mapFirst (last p) (\<lambda>e. ?new)) root"
      by (simp add: writeFile_def)
    have "lookupPath (butlast p @ [last p]) root' = Some ?new"
      unfolding r lookupPath_updateDir using d Some
      by (simp add: findEntry_mapFirst_const)
    then show ?thesis using pp by (simp add: statPath_def)
  qed
qed

lemma statOf_IsFile: "statOf e = IsFile c \<longleftrightarrow> (\<exists>n. e = FileEntry n c)"
  by (cases e) auto

lemma statOf_IsDir: "statOf e = IsDir \<longleftrightarrow> (\<exists>n es. e = DirEntry n es)"
  by (cases e) auto

lemma lookupPath_below_file:
  "lookupPath d root = Some (FileEntry n c) \<Longrightarrow> q \<noteq> [] \<Longrightarrow> lookupPath (d @ q) root = None"
  by (cases q) (auto simp: lookupPath_append)

lemma lookupPath_below_none:
  "lookupPath d root = None \<Longrightarrow> lookupPath (d @ q) root = None"
  by (simp add: lookupPath_append)

lemma entName_shape: "entName (shape e) = entName e"
  by (cases e) auto

lemma findEntry_shape: "findEntry s (map shape es) = map_option shape (findEntry s es)"
  by (induction es) (auto simp: findEntry_def entName_shape)

lemma lookupPath_shape: "lookupPath p (shape root) = map_option shape (lookupPath p root)"
proof (induction p arbitrary: root)
  case Nil
  then show ?case by simp
next
  case (Cons s ss)
  then show ?case
    by (cases root) (auto simp: findEntry_shape split: option.splits)
qed

lemma shape_eq_lookup_None:
  "shape a = shape b \<Longrightarrow> lookupPath p a = None \<longleftrightarrow> lookupPath p b = None"
  using lookupPath_shape [of p a] lookupPath_shape [of p b] by (metis option.map_disc_iff)

lemma shape_updateDirectory:
  "map shape (fst (updateDirectory engine oldPath newPath es basePath)) = map shape es"
  by (induction engine oldPath newPath es basePath rule: updateDirectory.induct)
     (auto split: prod.splits option.splits)

lemma shape_mapFirst:
  "findEntry s es = Some e \<Longrightarrow> shape (g e) = shape e \<Longrightarrow>
   map shape (mapFirst s g es) = map shape es"
  by (induction es) (auto simp: findEntry_def split: if_splits)

lemma shape_updateDir:
  "lookupPath d root = Some (DirEntry n es) \<Longrightarrow> map shape es' = map shape es \<Longrightarrow>
   shape (updateDir d (\<lambda>x. es') root) = shape root"
proof (induction d arbitrary: root)
  case Nil
  then show ?case by simp
next
  case (Cons s ss)
  from Cons.prems(1) obtain m rs e where r: "root = DirEntry m rs" "findEntry s rs = Some e"
    "lookupPath ss e = Some (DirEntry n es)"
    by (cases root) (auto split: option.splits)
  have "shape (updateDir ss (\<lambda>x. es') e) = shape e"
    using Cons.IH [OF r(3) Cons.prems(2)] .
  then have "map shape (mapFirst s (updateDir ss (\<lambda>x. es')) rs) = map shape rs"
    using r(2) by (rule shape_mapFirst [rotated])
  then show ?case using r(1) by simp
qed

lemma lookupPath_parent:
  assumes "lookupPath p root = Some e" and "p \<noteq> []"
  shows "\<exists>n es. lookupPath (butlast p) root = Some (DirEntry n es)"
proof -
  have "lookupPath (butlast p @ [last p]) root = Some e" using assms by simp
  then obtain d where d: "lookupPath (butlast p) root = Some d" "lookupPath [last p] d = Some e"
    unfolding lookupPath_append by (auto split: option.splits)
  from d(2) obtain n es where "d = DirEntry n es" by (cases d) auto
  with d(1) show ?thesis by blast
qed

lemma fsRename_succeeds:
  assumes src: "lookupPath src root = Some e" "src \<noteq> []"
    and dst: "lookupPath dst root = None" "dst \<noteq> []"
    and par: "butlast dst = butlast src"
  shows "fsRename src dst root \<noteq> None"
proof -
  have ne: "src \<noteq> dst" using src(1) dst(1) by auto
  have np: "\<not> prefix src dst"
  proof
    assume "prefix src dst"
    then obtain q where q: "dst = src @ q" by (auto simp: prefix_def)
    have "length dst - 1 = length src - 1" using par by (metis length_butlast)
    moreover have "0 < length dst" "0 < length src" using src(2) dst(2) by simp_all
    ultimately have "length dst = length src" by linarith
    with q have "q = []" by simp
    with q ne show False by simp
  qed
  from lookupPath_parent [OF src] obtain n es where
    "lookupPath (butlast dst) root = Some (DirEntry n es)" unfolding par by blast
  then show ?thesis using src dst ne np
    by (simp add: fsRename_def Let_def)
qed

lemma renamedPath_parts:
  assumes "validName newName"
  shows "splitOn (CHR ''/'') (renamedPath oldPath newName) =
           butlast (splitOn (CHR ''/'') oldPath) @ [toLowerCase newName]"
  unfolding renamedPath_def
proof (rule splitOn_joinWith)
  show "butlast (splitOn (CHR ''/'') oldPath) @ [toLowerCase newName] \<noteq> []" by simp
  show "\<forall>p\<in>set (butlast (splitOn (CHR ''/'') oldPath) @ [toLowerCase newName]). CHR ''/'' \<notin> set p"
    using validName_noslash [OF assms] splitOn_no_sep [of _ "CHR ''/''" oldPath]
    by (auto dest: in_set_butlastD)
qed

lemma renamedPath_last_segment:
  assumes "validName newName"
  shows "renamedPath oldPath newName =
           take (length oldPath - length (lastSegment oldPath)) oldPath @ normalize newName"
proof -
  let ?ps = "splitOn (CHR ''/'') oldPath"
  let ?lead = "if butlast ?ps = [] then [] else joinWith ''/'' (butlast ?ps) @ ''/''"
  have ps: "?ps = butlast ?ps @ [last ?ps]" using splitOn_nonempty [of "CHR ''/''" oldPath] by simp
  have "oldPath = joinWith ''/'' (butlast ?ps @ [last ?ps])"
    using joinWith_splitOn [of oldPath] ps by simp
  then have o: "oldPath = ?lead @ lastSegment oldPath"
    unfolding joinWith_snoc lastSegment_def by (simp split: if_splits)
  have "take (length (?lead @ lastSegment oldPath) - length (lastSegment oldPath))
          (?lead @ lastSegment oldPath) = ?lead"
    by simp
  then have "take (length oldPath - length (lastSegment oldPath)) oldPath = ?lead"
    using o by simp
  moreover have "renamedPath oldPath newName = ?lead @ toLowerCase newName"
    unfolding renamedPath_def joinWith_snoc by simp
  ultimately show ?thesis using validName_normalize [OF assms] by simp
qed

lemma absPath_renamed:
  assumes "validName newName"
  shows "absPath pagesDir (renamedPath oldPath newName @ ''.md'') =
     normSegs (rev pagesDir) (butlast (splitOn (CHR ''/'') oldPath)) @ [toLowerCase newName @ ''.md'']"
  unfolding absPath_md lastSegment_def renamedPath_parts [OF assms] by simp

section \<open>Resolving a wikilink\<close>

text \<open>
  C1 at a wikilink whose target is a name that \<^verbatim>\<open>Object.prototype\<close> defines, and at a
  wikilink whose target holds \<^verbatim>\<open>$&\<close>. The index, built from a wiki with the home page
  only, has no entry for \<^verbatim>\<open>constructor\<close>; still the read of the plain object yields
  the inherited function, which is true in the test, and the link is marked as existing
  with the text of that function as its path. The target \<^verbatim>\<open>$&\<close> is absent from the
  index and the link is marked as new, but the anchor goes through the replacement patterns
  of \<^verbatim>\<open>String.prototype.replace\<close>, and the path in the emitted anchor is the wikilink
  itself and not the normalized name.
\<close>

theorem processWikilinks_inherited_name:
  "indexGet (buildPageIndex [FileEntry ''home.md'' ''text'']) ''constructor'' \<noteq>
     Some (JStr ''constructor'') \<and>
   buildPageIndex [FileEntry ''home.md'' ''text''] ''constructor'' = None \<and>
   processWikilinks (buildPageIndex [FileEntry ''home.md'' ''text''])
     ''see [[constructor]]'' (Some ''systems/retro'') =
     ''see '' @ linkHtml ''function Object() { [native code] }'' True ''constructor'' \<and>
   buildPageIndex [FileEntry ''home.md'' ''text''] ''$&'' = None \<and>
   processWikilinks (buildPageIndex [FileEntry ''home.md'' ''text'']) ''[[$&]]'' (Some ''home'') =
     linkHtml ''[[$&]]'' False ''[[$&]]''"
  by code_simp

text \<open>
  Away from these inputs the loop body does what C1 says: a key with an entry that is not
  empty gives an existing link to the entry, and a key without an entry gives a new link to
  the bare name from the home page or without a current page, and below the current page
  otherwise. For a content with one wikilink and no other opening bracket, the anchor
  stands in the place of the wikilink.
\<close>

lemma resolveTarget_hit:
  "name \<noteq> ''__proto__'' \<Longrightarrow> idx name = Some p \<Longrightarrow> p \<noteq> [] \<Longrightarrow>
   resolveTarget idx cur name = (True, p)"
  by (simp add: resolveTarget_def indexGet_def)

lemma resolveTarget_miss:
  "name \<notin> set objectPrototypeNames \<Longrightarrow> idx name = None \<Longrightarrow>
   resolveTarget idx cur name =
     (False, if cur = None \<or> cur = Some [] \<or> cur = Some ''home'' then name
             else the cur @ ''/'' @ name)"
  by (auto simp: resolveTarget_def indexGet_def falsyPath_def objectPrototypeNames_def)

lemma matchWikilinkAt_no_bracket:
  "CHR ''['' \<notin> set s \<Longrightarrow> matchWikilinkAt s = None"
  by (cases s) (auto simp: matchWikilinkAt_def)

lemma wikilinkMatches_no_bracket:
  "CHR ''['' \<notin> set s \<Longrightarrow> wikilinkMatches s = []"
  by (induction s) (auto simp: matchWikilinkAt_no_bracket)

lemma matchWikilinkAt_link:
  "inner \<noteq> [] \<Longrightarrow> CHR '']'' \<notin> set inner \<Longrightarrow>
   matchWikilinkAt (''[['' @ inner @ '']]'' @ post) = Some (inner, post)"
  using takeWhile_closing [of inner "'']'' @ post"] dropWhile_closing [of inner "'']'' @ post"]
  by (simp add: matchWikilinkAt_def Let_def)

lemma wikilinkMatches_single:
  assumes "CHR ''['' \<notin> set lead" "inner \<noteq> []" "CHR '']'' \<notin> set inner" "CHR ''['' \<notin> set post"
  shows "wikilinkMatches (lead @ ''[['' @ inner @ '']]'' @ post) = [inner]"
  using assms(1)
proof (induction lead)
  case Nil
  then show ?case
    using matchWikilinkAt_link [OF assms(2,3), of post] wikilinkMatches_no_bracket [OF assms(4)]
    by simp
next
  case (Cons c lead)
  have "matchWikilinkAt ((c # lead) @ ''[['' @ inner @ '']]'' @ post) = None"
    using Cons.prems by (auto simp: matchWikilinkAt_def)
  then show ?case using Cons by simp
qed

lemma splitFirst_single:
  "CHR ''['' \<notin> set lead \<Longrightarrow> splitFirst (''[['' @ w) (lead @ ''[['' @ w @ post) = Some (lead, post)"
  by (induction lead) auto

lemma processWikilinks_single:
  assumes "CHR ''['' \<notin> set lead" "inner \<noteq> []" "CHR '']'' \<notin> set inner" "CHR ''['' \<notin> set post"
    and "CHR ''$'' \<notin> set (anchorFor idx cur inner)"
  shows "processWikilinks idx (lead @ ''[['' @ inner @ '']]'' @ post) cur =
           lead @ anchorFor idx cur inner @ post"
proof -
  have "splitFirst (''[['' @ inner @ '']]'') (lead @ ''[['' @ (inner @ '']]'') @ post) = Some (lead, post)"
    using splitFirst_single [OF assms(1), of "inner @ '']]''" post] by simp
  then show ?thesis
    using wikilinkMatches_single [OF assms(1-4)] getSubstitution_plain [OF assms(5)]
    by (simp add: processWikilinks_def processMatch_def replaceFirst_def)
qed

section \<open>The types of tree nodes\<close>

text \<open>
  C2 at a markdown file beside an empty directory of the same name: the node has the type
  \<open>PageParent\<close> and content, and no children.
\<close>

theorem buildTree_empty_directory:
  "buildTree localeCompare [FileEntry ''x.md'' ''text'', DirEntry ''x'' []] [] =
     [TreeNode ''x'' ''x'' PageParent True []]"
  by code_simp

text \<open>
  What holds of the rule at every depth: a node is a folder exactly when it has no content,
  a page has no children, and a node with content and children is a page-parent. Only the
  case of a file beside a directory without visible entries breaks the rule.
\<close>

lemma set_insertNode: "set (insertNode cmp x ys) = insert x (set ys)"
  by (induction ys) auto

lemma set_sortNodes: "set (sortNodes cmp xs) = set xs"
  by (induction xs) (auto simp: sortNodes_def set_insertNode)

lemma buildTree_member:
  assumes "nd \<in> set (buildTree localeCompare items basePath)"
  shows "\<exists>name cs.
           (cs = [] \<or> (\<exists>sub. lookupDir name items = Some sub \<and>
                          cs = buildTree localeCompare sub (pathJoin basePath name))) \<and>
           (nd = TreeNode name (pathJoin basePath name) PageParent True cs \<or>
            nd = TreeNode name (pathJoin basePath name) Page True [] \<or>
            nd = TreeNode name (pathJoin basePath name) Folder False cs)"
  using assms
  apply (subst (asm) buildTree.simps)
  apply (simp add: Let_def set_sortNodes del: buildTree.simps)
  apply (auto simp del: buildTree.simps split: if_splits option.splits)
  done

lemma buildTree_typeRule:
  "n \<in> set (concat (map treeNodes (buildTree localeCompare items basePath))) \<Longrightarrow> typeRule n"
proof (induction "size_list size items" arbitrary: items basePath n rule: less_induct)
  case less
  from less.prems obtain nd where nd: "nd \<in> set (buildTree localeCompare items basePath)"
    "n \<in> set (treeNodes nd)" by auto
  from buildTree_member [OF nd(1)] obtain name cs where
    cs: "cs = [] \<or> (\<exists>sub. lookupDir name items = Some sub \<and>
                          cs = buildTree localeCompare sub (pathJoin basePath name))"
    and t: "nd = TreeNode name (pathJoin basePath name) PageParent True cs \<or>
            nd = TreeNode name (pathJoin basePath name) Page True [] \<or>
            nd = TreeNode name (pathJoin basePath name) Folder False cs"
    by blast
  show ?case
  proof (cases "n = nd")
    case True
    with t show ?thesis by (auto simp: typeRule_def)
  next
    case False
    with nd(2) t have c: "n \<in> set (concat (map treeNodes cs))" by auto
    then have "cs \<noteq> []" by auto
    with cs obtain sub where sub: "lookupDir name items = Some sub"
      "cs = buildTree localeCompare sub (pathJoin basePath name)" by blast
    have "size_list size sub < size_list size items" using sub(1) by (rule lookupDir_size)
    then show ?thesis using less.hyps c sub(2) by blast
  qed
qed

section \<open>The page index after a rebuild\<close>

lemma scanDirectory_foldl:
  "scanDirectory idx es rel = foldl (\<lambda>i (n, p). indexPage i n p) idx (walkPages es rel)"
  by (induction idx es rel rule: scanDirectory.induct) auto

lemma walkPages_nonempty:
  "(n, p) \<in> set (walkPages es rel) \<Longrightarrow> n \<noteq> [] \<Longrightarrow> p \<noteq> []"
proof (induction es rel rule: walkPages.induct)
  case (1 relativePath)
  then show ?case by simp
next
  case (2 name sub es relativePath)
  then show ?case by auto
next
  case (3 name content es relativePath)
  show ?case
  proof (cases "(n, p) \<in> set (walkPages es relativePath)")
    case True
    with 3 show ?thesis by simp
  next
    case False
    with 3(2) have e: "n = dropExt name" "p = dropExt (pathJoin relativePath name)"
      by (auto split: if_splits)
    with 3(3) have "3 < length name" by (auto simp: dropExt_def)
    then have "3 < length (pathJoin relativePath name)" by (auto simp: pathJoin_def)
    then show ?thesis using e by (auto simp: dropExt_def)
  qed
qed

lemma toLowerCase_Nil: "toLowerCase s = [] \<longleftrightarrow> s = []"
  by (simp add: toLowerCase_def)

lemma indexWinner_snoc:
  "indexWinner k (ps @ [(n, p)]) =
     (if toLowerCase p = k then Some p
      else if toLowerCase n = k then
        (case indexWinner k ps of None \<Rightarrow> Some p | Some v \<Rightarrow> Some v)
      else indexWinner k ps)"
  by (auto simp: indexWinner_def split: list.splits)

lemma indexWinner_mem:
  "indexWinner k ps = Some v \<Longrightarrow> \<exists>n. (n, v) \<in> set ps \<and> (toLowerCase v = k \<or> toLowerCase n = k)"
proof (induction ps rule: rev_induct)
  case Nil
  then show ?case by (simp add: indexWinner_def)
next
  case (snoc x ps)
  obtain n p where x: "x = (n, p)" by (cases x)
  from snoc show ?case unfolding x indexWinner_snoc
    by (auto split: if_splits option.splits)
qed

lemma foldl_indexPage:
  assumes k: "k \<noteq> []" "k \<notin> set objectPrototypeNames"
    and ne: "\<forall>(n, p) \<in> set ps. n \<noteq> [] \<longrightarrow> p \<noteq> []"
  shows "foldl (\<lambda>i (n, p). indexPage i n p) Map.empty ps k = indexWinner k ps"
  using ne
proof (induction ps rule: rev_induct)
  case Nil
  then show ?case by (simp add: indexWinner_def)
next
  case (snoc x ps)
  obtain n p where x: "x = (n, p)" by (cases x)
  let ?idx = "foldl (\<lambda>i (n, p). indexPage i n p) Map.empty ps"
  from snoc have ih: "?idx k = indexWinner k ps" by simp
  have kp: "k \<noteq> ''__proto__''" using k(2) by (auto simp: objectPrototypeNames_def)
  have get: "indexGet ?idx k = map_option JStr (indexWinner k ps)"
    using k(2) kp ih by (auto simp: indexGet_def split: option.splits)
  show ?case
  proof (cases "toLowerCase p = k")
    case True
    then show ?thesis using kp
      by (simp add: x indexWinner_snoc indexPage_def indexSet_def Let_def)
  next
    case np: False
    show ?thesis
    proof (cases "toLowerCase n = k")
      case True
      show ?thesis
      proof (cases "indexWinner k ps")
        case None
        then show ?thesis using True np kp get
          by (simp add: x indexWinner_snoc indexPage_def indexSet_def Let_def)
      next
        case (Some v)
        from indexWinner_mem [OF Some] obtain m where m: "(m, v) \<in> set ps"
          "toLowerCase v = k \<or> toLowerCase m = k" by blast
        have "v \<noteq> []"
        proof (cases "toLowerCase v = k")
          case True
          then show ?thesis using k(1) by (auto simp: toLowerCase_def)
        next
          case False
          with m(2) have "m \<noteq> []" using k(1) by (auto simp: toLowerCase_def)
          with m(1) snoc(2) show ?thesis by auto
        qed
        then show ?thesis using True np kp get Some ih
          by (simp add: x indexWinner_snoc indexPage_def indexSet_def Let_def)
      qed
    next
      case False
      then show ?thesis using np ih
        by (simp add: x indexWinner_snoc indexPage_def indexSet_def Let_def)
    qed
  qed
qed

text \<open>
  C3 (as the code has it). After a rebuild, a key other than the empty string and the names
  that \<^verbatim>\<open>Object.prototype\<close> defines stands for the path of the last walked page whose
  lower-case full path is the key; when there is no such page, for the path of the first
  walked page whose lower-case leaf name is the key; and it is absent when there is neither.
\<close>

theorem buildPageIndex_lookup:
  assumes "k \<noteq> []" and "k \<notin> set objectPrototypeNames"
  shows "indexGet (buildPageIndex pages) k = map_option JStr (indexWinner k (walkPages pages []))"
proof -
  have "\<forall>(n, p) \<in> set (walkPages pages []). n \<noteq> [] \<longrightarrow> p \<noteq> []"
    using walkPages_nonempty by blast
  then have "buildPageIndex pages k = indexWinner k (walkPages pages [])"
    unfolding buildPageIndex_def scanDirectory_foldl by (rule foldl_indexPage [OF assms])
  moreover have "k \<noteq> ''__proto__''" using assms(2) by (auto simp: objectPrototypeNames_def)
  ultimately show ?thesis using assms(2)
    by (auto simp: indexGet_def split: option.splits)
qed

theorem buildPageIndex_lookup_witness:
  "''zeta'' \<noteq> [] \<and> ''zeta'' \<notin> set objectPrototypeNames \<and>
   indexGet (buildPageIndex [DirEntry ''computers'' [FileEntry ''zeta.md'' ''a''],
                             DirEntry ''systems'' [FileEntry ''Zeta.md'' ''b'']]) ''zeta'' =
     Some (JStr ''computers/zeta'')"
proof -
  have k: "''zeta'' \<noteq> []" "''zeta'' \<notin> set objectPrototypeNames"
    by (simp_all add: objectPrototypeNames_def)
  have w: "indexWinner ''zeta''
             (walkPages [DirEntry ''computers'' [FileEntry ''zeta.md'' ''a''],
                         DirEntry ''systems'' [FileEntry ''Zeta.md'' ''b'']] []) =
           Some ''computers/zeta''"
    by code_simp
  show ?thesis
    using k w buildPageIndex_lookup [OF k,
      of "[DirEntry ''computers'' [FileEntry ''zeta.md'' ''a''],
           DirEntry ''systems'' [FileEntry ''Zeta.md'' ''b'']]"]
    by simp
qed

text \<open>
  C3 as stated fails: the page \<^verbatim>\<open>computers/zeta\<close> is walked first, so its leaf key was
  not inserted before, and yet after the rebuild the key stands for the root page
  \<^verbatim>\<open>zeta\<close>, whose full-path entry is stored over it.
\<close>

theorem buildPageIndex_leaf_counterexample:
  "walkPages [DirEntry ''computers'' [FileEntry ''zeta.md'' ''a''], FileEntry ''zeta.md'' ''b''] [] =
     [(''zeta'', ''computers/zeta''), (''zeta'', ''zeta'')] \<and>
   indexGet (buildPageIndex [DirEntry ''computers'' [FileEntry ''zeta.md'' ''a''],
                             FileEntry ''zeta.md'' ''b'']) ''zeta'' = Some (JStr ''zeta'')"
  by code_simp

section \<open>The reference rewriter\<close>

subsection \<open>The wikilink pattern of the rewriter and the wikilinks of the resolver\<close>

lemma replaceAllFrom_spec:
  "old \<noteq> [] \<Longrightarrow> CHR ''$'' \<notin> set new \<Longrightarrow>
   replaceAllFrom old new pre s = specReplaceAll old new s"
  by (induction old new pre s rule: replaceAllFrom.induct)
     (auto simp: getSubstitution_plain Let_def)

lemma containsCI_Nil_iff: "containsCI old [] \<longleftrightarrow> old = []"
  by simp

lemma matchRenameAt_wikilink:
  "old \<noteq> [] \<Longrightarrow>
   matchRenameAt old s =
     (case matchWikilinkAt s of
        Some (inner, rest) \<Rightarrow> if containsCI old inner then Some (inner, rest) else None
      | None \<Rightarrow> None)"
  by (auto simp: matchRenameAt_def matchWikilinkAt_def Let_def)

lemma containsCI_Cons: "containsCI old cs \<Longrightarrow> containsCI old (c # cs)"
  by simp

lemma matchRenameAt_inside:
  assumes "CHR '']'' \<notin> set x" and "\<not> containsCI old x"
  shows "matchRenameAt old (x @ '']]'' @ rest) = None"
proof (cases "prefix ''[['' (x @ '']]'' @ rest)")
  case False
  then show ?thesis by (simp add: matchRenameAt_def)
next
  case True
  then obtain y where y: "x = ''[['' @ y"
    using assms(1) by (cases x; cases "tl x") auto
  have "\<not> containsCI old y" using assms(2) unfolding y by simp
  moreover have "takeWhile (\<lambda>c. c \<noteq> CHR '']'') (drop 2 (x @ '']]'' @ rest)) = y"
    using assms(1) takeWhile_closing [of y "'']'' @ rest"] unfolding y by simp
  ultimately show ?thesis by (simp add: matchRenameAt_def Let_def)
qed

lemma rewriteWikilinks_skip:
  assumes "CHR '']'' \<notin> set x" and "\<not> containsCI old x"
  shows "rewriteWikilinks old new (x @ '']]'' @ rest) =
           (x @ '']]'' @ fst (rewriteWikilinks old new rest), snd (rewriteWikilinks old new rest))"
  using assms
proof (induction x)
  case Nil
  have "matchRenameAt old ('']]'' @ rest) = None" "matchRenameAt old ('']'' @ rest) = None"
    by (simp_all add: matchRenameAt_def)
  then show ?case by (simp split: prod.splits)
next
  case (Cons c x)
  have "matchRenameAt old ((c # x) @ '']]'' @ rest) = None"
    using Cons.prems by (rule matchRenameAt_inside)
  moreover have "\<not> containsCI old x" "CHR '']'' \<notin> set x" using Cons.prems by auto
  ultimately show ?case using Cons.IH by (simp split: prod.splits)
qed

lemma matchWikilinkAt_decomp:
  "matchWikilinkAt s = Some (inner, rest) \<Longrightarrow>
   s = ''[['' @ inner @ '']]'' @ rest \<and> CHR '']'' \<notin> set inner \<and> inner \<noteq> []"
proof -
  assume a: "matchWikilinkAt s = Some (inner, rest)"
  let ?t = "drop 2 s"
  from a have p: "prefix ''[['' s" and i: "inner = takeWhile (\<lambda>c. c \<noteq> CHR '']'') ?t"
    and n: "inner \<noteq> []" and r: "prefix '']]'' (dropWhile (\<lambda>c. c \<noteq> CHR '']'') ?t)"
    and e: "rest = drop 2 (dropWhile (\<lambda>c. c \<noteq> CHR '']'') ?t)"
    by (auto simp: matchWikilinkAt_def Let_def split: if_splits)
  from p have s: "s = ''[['' @ ?t" by (auto simp: prefix_def)
  from r e have d: "dropWhile (\<lambda>c. c \<noteq> CHR '']'') ?t = '']]'' @ rest" by (auto simp: prefix_def)
  have "?t = inner @ '']]'' @ rest"
    using takeWhile_dropWhile_id [of "\<lambda>c. c \<noteq> CHR '']''" ?t] i d by simp
  moreover have "CHR '']'' \<notin> set inner" unfolding i by (auto dest: set_takeWhileD)
  ultimately show ?thesis using s n by simp
qed

lemma rewriteWikilinks_miss:
  assumes m: "matchWikilinkAt s = Some (inner, rest)" and n: "\<not> containsCI old inner"
    and o: "old \<noteq> []"
  shows "rewriteWikilinks old new s =
           (''[['' @ inner @ '']]'' @ fst (rewriteWikilinks old new rest),
            snd (rewriteWikilinks old new rest))"
proof -
  from matchWikilinkAt_decomp [OF m] have s: "s = ''[['' @ inner @ '']]'' @ rest"
    and c: "CHR '']'' \<notin> set inner" by simp_all
  have m0: "matchRenameAt old s = None" using m n o by (simp add: matchRenameAt_wikilink)
  have m1: "matchRenameAt old (''['' @ inner @ '']]'' @ rest) = None"
  proof (cases "matchWikilinkAt (''['' @ inner @ '']]'' @ rest)")
    case None
    then show ?thesis using o by (simp add: matchRenameAt_wikilink)
  next
    case (Some a)
    obtain i2 r2 where a: "a = (i2, r2)" by (cases a)
    from Some a have p: "prefix ''[['' (''['' @ inner @ '']]'' @ rest)"
      by (auto simp: matchWikilinkAt_def split: if_splits)
    then obtain y where y: "inner = CHR ''['' # y" using c by (cases inner) auto
    have "i2 = takeWhile (\<lambda>c. c \<noteq> CHR '']'') (y @ '']]'' @ rest)"
      using Some a unfolding y by (auto simp: matchWikilinkAt_def Let_def split: if_splits)
    then have "i2 = y" using c takeWhile_closing [of y "'']'' @ rest"] unfolding y by simp
    then have "\<not> containsCI old i2" using n unfolding y by simp
    then show ?thesis using Some a o by (simp add: matchRenameAt_wikilink)
  qed
  have "rewriteWikilinks old new (inner @ '']]'' @ rest) =
      (inner @ '']]'' @ fst (rewriteWikilinks old new rest), snd (rewriteWikilinks old new rest))"
    using c n by (rule rewriteWikilinks_skip)
  then show ?thesis unfolding s using m0 [unfolded s] m1 by (simp split: prod.splits)
qed

lemma rewriteWikilinks_spec:
  assumes "old \<noteq> []" and "CHR ''$'' \<notin> set new"
  shows "rewriteWikilinks old new s = (specWikilinks old new s, wikilinkHit old s)"
proof (induction s rule: wikilinkMatches.induct)
  case 1
  then show ?case by (simp add: wikilinkHit_def)
next
  case (2 c cs)
  show ?case
  proof (cases "matchWikilinkAt (c # cs)")
    case None
    then have "matchRenameAt old (c # cs) = None" using assms(1) by (simp add: matchRenameAt_wikilink)
    then show ?thesis using None 2(1) [OF None] by (simp add: wikilinkHit_def)
  next
    case (Some a)
    obtain inner rest where a: "a = (inner, rest)" by (cases a)
    have ih: "rewriteWikilinks old new rest = (specWikilinks old new rest, wikilinkHit old rest)"
      using 2(2) [OF Some a [symmetric]] by simp
    show ?thesis
    proof (cases "containsCI old inner")
      case True
      then have "matchRenameAt old (c # cs) = Some (inner, rest)"
        using Some a assms(1) by (simp add: matchRenameAt_wikilink)
      then show ?thesis using Some a True ih assms
        by (simp add: wikilinkHit_def replaceAllFrom_spec)
    next
      case False
      have "rewriteWikilinks old new (c # cs) =
           (''[['' @ inner @ '']]'' @ fst (rewriteWikilinks old new rest),
            snd (rewriteWikilinks old new rest))"
        using Some [unfolded a] False assms(1) by (rule rewriteWikilinks_miss)
      then show ?thesis using Some a False ih by (simp add: wikilinkHit_def)
    qed
  qed
qed

subsection \<open>The markdown link pattern\<close>

lemma toLowerChar_paren: "toLowerChar c = CHR '')'' \<Longrightarrow> c = CHR '')''"
proof -
  assume e: "toLowerChar c = CHR '')''"
  then have "(of_char (toLowerChar c) :: nat) = 41" by simp
  then have "(of_char c :: nat) = 41"
    unfolding of_char_toLowerChar Let_def by (auto split: if_splits)
  then have "(of_char c :: nat) = of_char (CHR '')'')" by simp
  then show ?thesis by (simp only: of_char_eq_iff)
qed

lemma ciPrefix_iff:
  "ciPrefix old a \<longleftrightarrow> (\<exists>t r. a = t @ r \<and> toLowerCase t = toLowerCase old)"
proof
  assume "ciPrefix old a"
  then obtain z where z: "map toLowerChar a = map toLowerChar old @ z"
    by (auto simp: ciPrefix_def toLowerCase_def prefix_def)
  have "map toLowerChar (take (length old) a) = take (length old) (map toLowerChar a)"
    by (simp add: take_map)
  also have "\<dots> = map toLowerChar old" unfolding z by simp
  finally have "map toLowerChar (take (length old) a) = map toLowerChar old" .
  then show "\<exists>t r. a = t @ r \<and> toLowerCase t = toLowerCase old"
    by (intro exI [of _ "take (length old) a"] exI [of _ "drop (length old) a"])
       (simp add: toLowerCase_def)
next
  assume "\<exists>t r. a = t @ r \<and> toLowerCase t = toLowerCase old"
  then show "ciPrefix old a" by (auto simp: ciPrefix_def toLowerCase_def)
qed

lemma toLowerCase_length: "toLowerCase t = toLowerCase old \<Longrightarrow> length t = length old"
  unfolding toLowerCase_def by (rule map_eq_imp_length_eq)

lemma matchTarget_iff:
  "matchTarget old a = Some rest \<longleftrightarrow>
     (\<exists>target. toLowerCase target = toLowerCase old \<and> a = target @ '')'' @ rest)"
proof
  assume m: "matchTarget old a = Some rest"
  then have c: "ciPrefix old a" and p: "prefix '')'' (drop (length old) a)"
    and r: "rest = drop (length old + 1) a"
    by (auto simp: matchTarget_def split: if_splits)
  from c obtain t r' where t: "a = t @ r'" "toLowerCase t = toLowerCase old"
    unfolding ciPrefix_iff by blast
  have l: "length t = length old" using t(2) by (rule toLowerCase_length)
  from p t(1) l have "prefix '')'' r'" by simp
  then obtain r2 where r2: "r' = '')'' @ r2" by (auto simp: prefix_def)
  have "rest = r2" using r t(1) l r2 by simp
  then show "\<exists>target. toLowerCase target = toLowerCase old \<and> a = target @ '')'' @ rest"
    using t r2 by auto
next
  assume "\<exists>target. toLowerCase target = toLowerCase old \<and> a = target @ '')'' @ rest"
  then obtain t where t: "toLowerCase t = toLowerCase old" "a = t @ '')'' @ rest" by blast
  have l: "length t = length old" using t(1) by (rule toLowerCase_length)
  have "ciPrefix old a" unfolding ciPrefix_iff using t by blast
  then show "matchTarget old a = Some rest" using t(2) l by (simp add: matchTarget_def)
qed

lemma matchMdAt_sound:
  assumes "matchMdAt old s = Some (pre, rest)"
  shows "\<exists>text slash target. text \<noteq> [] \<and> CHR '']'' \<notin> set text \<and> pre = ''['' @ text @ ''](''  \<and>
           (slash = [] \<or> slash = ''/'') \<and> toLowerCase target = toLowerCase old \<and>
           s = pre @ slash @ target @ '')'' @ rest"
proof -
  from assms obtain c t where s: "s = c # t" by (cases s) (auto simp: matchMdAt_def)
  let ?run = "takeWhile (\<lambda>x. x \<noteq> CHR '']'') t"
  let ?r = "dropWhile (\<lambda>x. x \<noteq> CHR '']'') t"
  let ?a = "drop 2 ?r"
  from assms s have c: "c = CHR ''[''" and run: "?run \<noteq> []" and r: "prefix '']('' ?r"
    and pre: "pre = c # ?run @ '']('' "
    and f: "(prefix ''/'' ?a \<and> matchTarget old (tl ?a) = Some rest) \<or> matchTarget old ?a = Some rest"
    by (auto simp: matchMdAt_def Let_def split: if_splits option.splits)
  from r have ra: "?r = '']('' @ ?a" by (auto simp: prefix_def)
  have t: "t = ?run @ '']('' @ ?a"
    using takeWhile_dropWhile_id [of "\<lambda>x. x \<noteq> CHR '']''" t] ra by simp
  have nr: "CHR '']'' \<notin> set ?run" by (auto dest: set_takeWhileD)
  from f show ?thesis
  proof
    assume "prefix ''/'' ?a \<and> matchTarget old (tl ?a) = Some rest"
    then obtain target where "toLowerCase target = toLowerCase old" "?a = ''/'' @ target @ '')'' @ rest"
      unfolding matchTarget_iff by (cases ?a) auto
    then show ?thesis using s c run nr pre t
      by (intro exI [of _ ?run] exI [of _ "''/''"] exI [of _ target]) simp
  next
    assume "matchTarget old ?a = Some rest"
    then obtain target where "toLowerCase target = toLowerCase old" "?a = target @ '')'' @ rest"
      unfolding matchTarget_iff by auto
    then show ?thesis using s c run nr pre t
      by (intro exI [of _ ?run] exI [of _ "[]"] exI [of _ target]) simp
  qed
qed

lemma matchTarget_slash_unique:
  assumes lit: "regexLiteral old"
    and t: "toLowerCase target = toLowerCase old"
    and p: "prefix ''/'' (target @ '')'' @ rest)"
    and m: "matchTarget old (tl (target @ '')'' @ rest)) = Some rest'"
  shows False
proof -
  from m obtain t2 where t2: "toLowerCase t2 = toLowerCase old"
    "tl (target @ '')'' @ rest) = t2 @ '')'' @ rest'"
    unfolding matchTarget_iff by blast
  have l: "length target = length old" "length t2 = length old"
    using t t2(1) by (auto dest: toLowerCase_length)
  have no: "CHR '')'' \<notin> set old" using lit by (auto simp: regexLiteral_def)
  from p obtain xs where x: "target = CHR ''/'' # xs" by (cases target) auto
  have e: "xs @ CHR '')'' # rest = t2 @ CHR '')'' # rest'" using t2(2) x by simp
  have n: "length t2 = Suc (length xs)" using l x by simp
  have "take (Suc (length xs)) (xs @ CHR '')'' # rest) = xs @ [CHR '')'']" by simp
  moreover have "take (Suc (length xs)) (t2 @ CHR '')'' # rest') = t2" using n by simp
  ultimately have "t2 = xs @ [CHR '')'']" using e by simp
  then have "toLowerCase old = toLowerCase xs @ [toLowerChar (CHR '')'')]"
    using t2(1) by (simp add: toLowerCase_def)
  then have "toLowerChar (CHR '')'') \<in> set (toLowerCase old)" by simp
  then obtain c where c: "c \<in> set old" "toLowerChar c = toLowerChar (CHR '')'')"
    by (auto simp: toLowerCase_def)
  have "toLowerChar (CHR '')'') = CHR '')''" by code_simp
  with c(2) have "c = CHR '')''" by (simp add: toLowerChar_paren)
  with c(1) no show False by simp
qed

lemma matchMdAt_complete:
  assumes lit: "regexLiteral old"
    and tx: "text \<noteq> []" "CHR '']'' \<notin> set text"
    and pre: "pre = ''['' @ text @ ''](''"
    and slash: "slash = [] \<or> slash = ''/''"
    and target: "toLowerCase target = toLowerCase old"
    and s: "s = pre @ slash @ target @ '')'' @ rest"
  shows "matchMdAt old s = Some (pre, rest)"
proof -
  define a where "a = slash @ target @ '')'' @ rest"
  define t where "t = text @ '']('' @ a"
  have s': "s = CHR ''['' # t" using s pre by (simp add: t_def a_def)
  have run: "takeWhile (\<lambda>x. x \<noteq> CHR '']'') t = text"
    unfolding t_def using takeWhile_closing [OF tx(2), of "''('' @ a"] by simp
  have r: "dropWhile (\<lambda>x. x \<noteq> CHR '']'') t = '']('' @ a"
    unfolding t_def using dropWhile_closing [OF tx(2), of "''('' @ a"] by simp
  have tm: "matchTarget old (target @ '')'' @ rest) = Some rest"
    unfolding matchTarget_iff using target by blast
  have found: "(if prefix ''/'' a \<and> matchTarget old (tl a) \<noteq> None
                then matchTarget old (tl a) else matchTarget old a) = Some rest"
  proof (cases "slash = []")
    case True
    have "\<not> (prefix ''/'' (target @ '')'' @ rest) \<and>
             matchTarget old (tl (target @ '')'' @ rest)) \<noteq> None)"
      using matchTarget_slash_unique [OF lit target] by blast
    then show ?thesis unfolding a_def using True tm by simp
  next
    case False
    then have "slash = ''/''" using slash by simp
    then show ?thesis unfolding a_def using tm by simp
  qed
  have "matchMdAt old (CHR ''['' # t) =
      (case (if prefix ''/'' a \<and> matchTarget old (tl a) \<noteq> None
             then matchTarget old (tl a) else matchTarget old a) of
         Some rest \<Rightarrow> Some (CHR ''['' # text @ '']('', rest)
       | None \<Rightarrow> None)"
    unfolding matchMdAt_def list.case Let_def run r using tx(1) by auto
  then show ?thesis unfolding s' found using pre by simp
qed

lemma matchMdAt_iff:
  assumes "regexLiteral old"
  shows "matchMdAt old s = Some (pre, rest) \<longleftrightarrow>
     (\<exists>text slash target. text \<noteq> [] \<and> CHR '']'' \<notin> set text \<and> pre = ''['' @ text @ ''](''  \<and>
        (slash = [] \<or> slash = ''/'') \<and> toLowerCase target = toLowerCase old \<and>
        s = pre @ slash @ target @ '')'' @ rest)"
  using matchMdAt_sound [of old s pre rest] matchMdAt_complete [OF assms] by blast

lemma rewriteWikilinks_unmodified:
  "\<not> snd (rewriteWikilinks old new s) \<Longrightarrow> fst (rewriteWikilinks old new s) = s"
  by (induction old new s rule: rewriteWikilinks.induct) (auto split: option.splits prod.splits)

lemma rewriteMdLinks_unmodified:
  "\<not> snd (rewriteMdLinks old new s) \<Longrightarrow> fst (rewriteMdLinks old new s) = s"
  by (induction old new s rule: rewriteMdLinks.induct) (auto split: option.splits prod.splits)

lemma rewritePage_unmodified:
  "\<not> snd (rewritePage oldPath newPath c) \<Longrightarrow> fst (rewritePage oldPath newPath c) = c"
  using rewriteWikilinks_unmodified [of "lastSegment oldPath" "lastSegment newPath" c]
    rewriteMdLinks_unmodified [of oldPath newPath c]
  by (auto simp: rewritePage_def split: prod.splits)

subsection \<open>The markdown links of the specification\<close>

lemma takeWhile_paren:
  "CHR '')'' \<notin> set x \<Longrightarrow> takeWhile (\<lambda>c. c \<noteq> CHR '')'') (x @ CHR '')'' # r) = x"
  by (induction x) auto

lemma dropWhile_paren:
  "CHR '')'' \<notin> set x \<Longrightarrow> dropWhile (\<lambda>c. c \<noteq> CHR '')'') (x @ CHR '')'' # r) = CHR '')'' # r"
  by (induction x) auto

lemma mdLinkAt_iff:
  "mdLinkAt s = Some (label, target, rest) \<longleftrightarrow>
     label \<noteq> [] \<and> CHR '']'' \<notin> set label \<and> CHR '')'' \<notin> set target \<and>
     s = ''['' @ label @ '']('' @ target @ '')'' @ rest"
proof
  assume a: "mdLinkAt s = Some (label, target, rest)"
  let ?t = "drop 1 s"
  let ?r = "dropWhile (\<lambda>c. c \<noteq> CHR '']'') ?t"
  let ?u = "drop 2 ?r"
  let ?v = "dropWhile (\<lambda>c. c \<noteq> CHR '')'') ?u"
  from a have p: "prefix ''['' s" and l: "label = takeWhile (\<lambda>c. c \<noteq> CHR '']'') ?t"
    and ne: "label \<noteq> []" and r: "prefix '']('' ?r"
    and tg: "target = takeWhile (\<lambda>c. c \<noteq> CHR '')'') ?u"
    and v: "?v \<noteq> []" and rest: "rest = drop 1 ?v"
    by (auto simp: mdLinkAt_def Let_def split: if_splits)
  from p have s: "s = CHR ''['' # ?t" by (cases s) auto
  have t: "?t = label @ ?r" unfolding l by simp
  from r have ru: "?r = '']('' @ ?u" by (auto simp: prefix_def)
  have u: "?u = target @ ?v" unfolding tg by simp
  have "hd ?v = CHR '')''" using v hd_dropWhile [of "\<lambda>c. c \<noteq> CHR '')''" ?u] by auto
  then have vr: "?v = CHR '')'' # rest" using v rest by (cases ?v) auto
  have "s = CHR ''['' # label @ '']('' @ target @ CHR '')'' # rest"
    using s t ru u vr by metis
  moreover have "CHR '']'' \<notin> set label" unfolding l by (auto dest: set_takeWhileD)
  moreover have "CHR '')'' \<notin> set target" unfolding tg by (auto dest: set_takeWhileD)
  ultimately show "label \<noteq> [] \<and> CHR '']'' \<notin> set label \<and> CHR '')'' \<notin> set target \<and>
     s = ''['' @ label @ '']('' @ target @ '')'' @ rest"
    using ne by simp
next
  assume a: "label \<noteq> [] \<and> CHR '']'' \<notin> set label \<and> CHR '')'' \<notin> set target \<and>
     s = ''['' @ label @ '']('' @ target @ '')'' @ rest"
  define u where "u = target @ CHR '')'' # rest"
  have s: "s = CHR ''['' # label @ CHR '']'' # CHR ''('' # u" using a by (simp add: u_def)
  have l: "takeWhile (\<lambda>c. c \<noteq> CHR '']'') (label @ CHR '']'' # CHR ''('' # u) = label"
    using a by (simp add: takeWhile_closing)
  have r: "dropWhile (\<lambda>c. c \<noteq> CHR '']'') (label @ CHR '']'' # CHR ''('' # u) = CHR '']'' # CHR ''('' # u"
    using a by (simp add: dropWhile_closing)
  have tg: "takeWhile (\<lambda>c. c \<noteq> CHR '')'') u = target"
    unfolding u_def using a by (simp add: takeWhile_paren)
  have v: "dropWhile (\<lambda>c. c \<noteq> CHR '')'') u = CHR '')'' # rest"
    unfolding u_def using a by (simp add: dropWhile_paren)
  have "CHR '')'' \<in> set u" by (simp add: u_def)
  then show "mdLinkAt s = Some (label, target, rest)"
    unfolding mdLinkAt_def s using a by (simp add: l r tg v)
qed

lemma toLowerChar_slash: "toLowerChar c = CHR ''/'' \<Longrightarrow> c = CHR ''/''"
proof -
  assume e: "toLowerChar c = CHR ''/''"
  then have "(of_char (toLowerChar c) :: nat) = 47" by simp
  then have "(of_char c :: nat) = 47"
    unfolding of_char_toLowerChar Let_def by (auto split: if_splits)
  then have "(of_char c :: nat) = of_char (CHR ''/'')" by simp
  then show ?thesis by (simp only: of_char_eq_iff)
qed

lemma toLowerCase_no_paren:
  assumes "toLowerCase t = toLowerCase old" and "CHR '')'' \<notin> set old"
  shows "CHR '')'' \<notin> set t"
proof
  assume "CHR '')'' \<in> set t"
  then have "toLowerChar (CHR '')'') \<in> set (toLowerCase t)" by (simp add: toLowerCase_def)
  then have "toLowerChar (CHR '')'') \<in> set (toLowerCase old)" using assms(1) by simp
  then obtain c where c: "c \<in> set old" "toLowerChar c = toLowerChar (CHR '')'')"
    by (auto simp: toLowerCase_def)
  have "toLowerChar (CHR '')'') = CHR '')''" by code_simp
  with c(2) have "c = CHR '')''" by (simp add: toLowerChar_paren)
  with c(1) assms(2) show False by simp
qed

lemma targetIs_iff:
  "targetIs old target \<longleftrightarrow>
     (\<exists>slash t. (slash = [] \<or> slash = ''/'') \<and> target = slash @ t \<and>
        toLowerCase t = toLowerCase old)"
proof
  assume "targetIs old target"
  then consider "toLowerCase target = toLowerCase old"
    | "toLowerCase target = toLowerCase (''/'' @ old)"
    by (auto simp: targetIs_def)
  then show "\<exists>slash t. (slash = [] \<or> slash = ''/'') \<and> target = slash @ t \<and>
        toLowerCase t = toLowerCase old"
  proof cases
    case 1
    then show ?thesis by (intro exI [of _ "[]"] exI [of _ target]) simp
  next
    case 2
    then obtain c t where ct: "target = c # t" by (cases target) (auto simp: toLowerCase_def)
    with 2 have "toLowerChar c = toLowerChar (CHR ''/'')" "toLowerCase t = toLowerCase old"
      by (simp_all add: toLowerCase_def)
    moreover have "toLowerChar (CHR ''/'') = CHR ''/''" by code_simp
    ultimately have "c = CHR ''/''" "toLowerCase t = toLowerCase old"
      by (simp_all add: toLowerChar_slash)
    with ct show ?thesis by (intro exI [of _ "''/''"] exI [of _ t]) simp
  qed
next
  assume "\<exists>slash t. (slash = [] \<or> slash = ''/'') \<and> target = slash @ t \<and>
        toLowerCase t = toLowerCase old"
  then show "targetIs old target" by (auto simp: targetIs_def toLowerCase_def)
qed

text \<open>The pattern of the rewriter matches where a markdown link starts whose target is
  the old path, and nowhere else.\<close>

lemma matchMdAt_mdLinkAt:
  assumes lit: "regexLiteral old"
  shows "matchMdAt old s =
     (case mdLinkAt s of
        Some (label, target, rest) \<Rightarrow>
          if targetIs old target then Some (''['' @ label @ '']('', rest) else None
      | None \<Rightarrow> None)"
proof -
  have no: "CHR '')'' \<notin> set old" using lit by (auto simp: regexLiteral_def)
  have sound: "\<exists>label target. mdLinkAt s = Some (label, target, rest) \<and> targetIs old target \<and>
      pre = ''['' @ label @ '']('' "
    if m: "matchMdAt old s = Some (pre, rest)" for pre rest
  proof -
    from matchMdAt_sound [OF m] obtain tx slash target where
      x: "tx \<noteq> []" "CHR '']'' \<notin> set tx" "pre = ''['' @ tx @ '']('' "
         "slash = [] \<or> slash = ''/''" "toLowerCase target = toLowerCase old"
         "s = pre @ slash @ target @ '')'' @ rest"
      by blast
    have "CHR '')'' \<notin> set target" using x(5) no by (rule toLowerCase_no_paren)
    then have np: "CHR '')'' \<notin> set (slash @ target)" using x(4) by auto
    have "s = ''['' @ tx @ '']('' @ (slash @ target) @ '')'' @ rest" using x(3,6) by simp
    then have "mdLinkAt s = Some (tx, slash @ target, rest)"
      unfolding mdLinkAt_iff using x(1,2) np by blast
    moreover have "targetIs old (slash @ target)"
      unfolding targetIs_iff using x(4,5) by blast
    ultimately show ?thesis using x(3) by blast
  qed
  show ?thesis
  proof (cases "mdLinkAt s")
    case None
    have "matchMdAt old s = None"
    proof (cases "matchMdAt old s")
      case (Some pr)
      then obtain pre rest where "matchMdAt old s = Some (pre, rest)" by (cases pr) auto
      from sound [OF this] None show ?thesis by auto
    qed simp
    with None show ?thesis by simp
  next
    case (Some ltr)
    then obtain label target rest where l: "mdLinkAt s = Some (label, target, rest)"
      by (cases ltr) auto
    then have d: "label \<noteq> []" "CHR '']'' \<notin> set label"
      "s = ''['' @ label @ '']('' @ target @ '')'' @ rest"
      unfolding mdLinkAt_iff by auto
    show ?thesis
    proof (cases "targetIs old target")
      case True
      then obtain slash t where st: "slash = [] \<or> slash = ''/''" "target = slash @ t"
        "toLowerCase t = toLowerCase old"
        unfolding targetIs_iff by blast
      have "s = (''['' @ label @ '']('') @ slash @ t @ '')'' @ rest"
        using d(3) st(2) by simp
      with matchMdAt_complete [OF lit d(1,2) refl st(1,3)]
      have "matchMdAt old s = Some (''['' @ label @ '']('', rest)" by blast
      with l True show ?thesis by simp
    next
      case False
      have "matchMdAt old s = None"
      proof (cases "matchMdAt old s")
        case (Some pr)
        then obtain pre rest' where "matchMdAt old s = Some (pre, rest')" by (cases pr) auto
        from sound [OF this] l False show ?thesis by auto
      qed simp
      with l False show ?thesis by simp
    qed
  qed
qed

lemma rewriteMdLinks_spec:
  assumes lit: "regexLiteral old"
  shows "rewriteMdLinks old new s = (specMdLinks old new s, mdLinkHit old s)"
  using lit
proof (induction old new s rule: rewriteMdLinks.induct)
  case (1 oldPath newPath)
  then show ?case by simp
next
  case (2 oldPath newPath c cs)
  note m = matchMdAt_mdLinkAt [OF 2(3), of "c # cs"]
  show ?case
  proof (cases "matchMdAt oldPath (c # cs)")
    case None
    from 2(1) [OF None 2(3)] None m show ?thesis
      by (auto split: option.splits if_splits)
  next
    case (Some pr)
    obtain pre rest where pr: "pr = (pre, rest)" by (cases pr)
    from Some pr m obtain label target where
      l: "mdLinkAt (c # cs) = Some (label, target, rest)" "targetIs oldPath target"
         "pre = ''['' @ label @ '']('' "
      by (auto split: option.splits if_splits)
    from 2(2) [OF Some pr [symmetric] 2(3)] Some pr l show ?thesis by simp
  qed
qed

lemma rewritePage_spec:
  assumes "regexLiteral oldPath"
    and "lastSegment oldPath \<noteq> []" and "CHR ''$'' \<notin> set (lastSegment newPath)"
  shows "rewritePage oldPath newPath c = (specRewrite oldPath newPath c, affected oldPath newPath c)"
  unfolding rewritePage_def rewriteWikilinks_spec [OF assms(2,3)] rewriteMdLinks_spec [OF assms(1)]
    specRewrite_def affected_def
  by simp

subsection \<open>The walk over the pages\<close>

lemma updateDirectory_pages:
  assumes "regexLiteral oldPath"
  shows "updateDirectory engine oldPath newPath es basePath =
     (mapPages (\<lambda>c. fst (rewritePage oldPath newPath c)) es,
      map (\<lambda>(p, c). replaceFirst p ''.md'' [])
        (filter (\<lambda>(p, c). snd (rewritePage oldPath newPath c)) (pageFiles es basePath)),
      True)"
  using assms
proof (induction engine oldPath newPath es basePath rule: updateDirectory.induct)
  case (1 engine oldPath newPath basePath)
  then show ?case by simp
next
  case (2 engine oldPath newPath name sub es basePath)
  then show ?case by (simp split: prod.splits)
next
  case (3 engine oldPath newPath name content es basePath)
  then show ?case
    using rewritePage_unmodified [of oldPath newPath content]
    by (auto simp: rewriteFile_def split: prod.splits)
qed

text \<open>When the first \<^verbatim>\<open>.md\<close> of a file's path is its extension, the path that the walk
  reports is the path of the page.\<close>

lemma replaceFirst_extension:
  "splitFirst ''.md'' p = Some (dropExt p, []) \<Longrightarrow> replaceFirst p ''.md'' [] = dropExt p"
  by (simp add: replaceFirst_def)

lemma reported_paths:
  assumes "\<forall>(p, c) \<in> set ps. splitFirst ''.md'' p = Some (dropExt p, [])"
  shows "map (\<lambda>(p, c). replaceFirst p ''.md'' []) (filter f ps) =
         map (\<lambda>(p, c). dropExt p) (filter f ps)"
  using assms by (induction ps) (auto simp: replaceFirst_extension)

text \<open>
  C4 (as the code has it), for an old path that stands for itself in a pattern, with a last
  part that is not empty, a new name without a dollar sign, and pages in whose paths
  \<^verbatim>\<open>.md\<close> occurs as the extension only. The walk comes to its end and returns the tree in
  which the content of every page is rewritten, and the paths of the affected pages in the
  order of the walk. In the content of a page, each wikilink whose inner text contains the
  old name without regard to case has every such occurrence replaced by the new name;
  then each markdown link whose target is the old path without regard to case, with or
  without a leading slash, gets the new path as its target. A page is affected when one of
  the two applied, and the content of a page that is not affected stays as it was.
\<close>

theorem updatePageReferences_spec:
  assumes "regexLiteral oldPath"
    and "lastSegment oldPath \<noteq> []"
    and "CHR ''$'' \<notin> set (lastSegment newPath)"
    and "\<forall>(p, c) \<in> set (pageFiles pages []). splitFirst ''.md'' p = Some (dropExt p, [])"
  shows "updatePageReferences engine oldPath newPath pages =
           (mapPages (specRewrite oldPath newPath) pages,
            map (\<lambda>(p, c). dropExt p)
              (filter (\<lambda>(p, c). affected oldPath newPath c) (pageFiles pages [])),
            True) \<and>
         (\<forall>c. \<not> affected oldPath newPath c \<longrightarrow> specRewrite oldPath newPath c = c)"
proof -
  have p: "\<And>c. rewritePage oldPath newPath c =
      (specRewrite oldPath newPath c, affected oldPath newPath c)"
    using assms(1,2,3) by (rule rewritePage_spec)
  have "updatePageReferences engine oldPath newPath pages =
           (mapPages (specRewrite oldPath newPath) pages,
            map (\<lambda>(p, c). replaceFirst p ''.md'' [])
              (filter (\<lambda>(p, c). affected oldPath newPath c) (pageFiles pages [])),
            True)"
    unfolding updatePageReferences_def updateDirectory_pages [OF assms(1)] p by simp
  then have "updatePageReferences engine oldPath newPath pages =
           (mapPages (specRewrite oldPath newPath) pages,
            map (\<lambda>(p, c). dropExt p)
              (filter (\<lambda>(p, c). affected oldPath newPath c) (pageFiles pages [])),
            True)"
    unfolding reported_paths [OF assms(4)] .
  moreover have "\<And>c. \<not> affected oldPath newPath c \<Longrightarrow> specRewrite oldPath newPath c = c"
    using rewritePage_unmodified [of oldPath newPath] unfolding p by simp
  ultimately show ?thesis by blast
qed

theorem updatePageReferences_spec_witness:
  "regexLiteral ''guides/old-name'' \<and>
   lastSegment ''guides/old-name'' \<noteq> [] \<and>
   CHR ''$'' \<notin> set (lastSegment ''guides/new-name'') \<and>
   list_all (\<lambda>(p, c). splitFirst ''.md'' p = Some (dropExt p, []))
     (pageFiles
        [FileEntry ''home.md'' ''see [[Old-Name]] and [[other]]'',
         DirEntry ''guides'' [FileEntry ''other.md'' ''[text](/guides/old-name) [more](Guides/Old-Name)'',
                             FileEntry ''plain.md'' ''[text](old-name)''],
         DirEntry ''.trash'' [FileEntry ''a.md'' ''[[old-name]]'']] []) \<and>
   updatePageReferences (\<lambda>oldPath newPath content. None) ''guides/old-name'' ''guides/new-name''
     [FileEntry ''home.md'' ''see [[Old-Name]] and [[other]]'',
      DirEntry ''guides'' [FileEntry ''other.md'' ''[text](/guides/old-name) [more](Guides/Old-Name)'',
                          FileEntry ''plain.md'' ''[text](old-name)''],
      DirEntry ''.trash'' [FileEntry ''a.md'' ''[[old-name]]'']] =
     ([FileEntry ''home.md'' ''see [[new-name]] and [[other]]'',
       DirEntry ''guides'' [FileEntry ''other.md'' ''[text](guides/new-name) [more](guides/new-name)'',
                           FileEntry ''plain.md'' ''[text](old-name)''],
       DirEntry ''.trash'' [FileEntry ''a.md'' ''[[old-name]]'']],
      [''home'', ''guides/other''], True)"
proof -
  let ?pages = "[FileEntry ''home.md'' ''see [[Old-Name]] and [[other]]'',
      DirEntry ''guides'' [FileEntry ''other.md'' ''[text](/guides/old-name) [more](Guides/Old-Name)'',
                          FileEntry ''plain.md'' ''[text](old-name)''],
      DirEntry ''.trash'' [FileEntry ''a.md'' ''[[old-name]]'']]"
  have h: "regexLiteral ''guides/old-name''" "lastSegment ''guides/old-name'' \<noteq> []"
    "CHR ''$'' \<notin> set (lastSegment ''guides/new-name'')"
    by code_simp+
  have e: "list_all (\<lambda>(p, c). splitFirst ''.md'' p = Some (dropExt p, [])) (pageFiles ?pages [])"
    by code_simp
  then have e': "\<forall>(p, c) \<in> set (pageFiles ?pages []). splitFirst ''.md'' p = Some (dropExt p, [])"
    unfolding list_all_iff .
  have m: "mapPages (specRewrite ''guides/old-name'' ''guides/new-name'') ?pages =
     [FileEntry ''home.md'' ''see [[new-name]] and [[other]]'',
       DirEntry ''guides'' [FileEntry ''other.md'' ''[text](guides/new-name) [more](guides/new-name)'',
                           FileEntry ''plain.md'' ''[text](old-name)''],
       DirEntry ''.trash'' [FileEntry ''a.md'' ''[[old-name]]'']]"
    by code_simp
  have u: "map (\<lambda>(p, c). dropExt p)
     (filter (\<lambda>(p, c). affected ''guides/old-name'' ''guides/new-name'' c)
       (pageFiles ?pages [])) =
     [''home'', ''guides/other'']"
    by code_simp
  show ?thesis
    using updatePageReferences_spec [OF h e', of "\<lambda>oldPath newPath content. None"] h e m u
    by simp
qed

text \<open>
  C4 as stated fails: a page whose only link is a markdown link with the target
  \<^verbatim>\<open>OLD\<close> has no wikilink and no markdown link whose target is exactly \<^verbatim>\<open>old\<close> or
  \<^verbatim>\<open>/old\<close>, and yet the rename of \<^verbatim>\<open>old\<close> rewrites it and reports it.
\<close>

theorem updatePageReferences_case_counterexample:
  "wikilinkMatches ''[t](OLD)'' = [] \<and>
   mdLinkAt ''[t](OLD)'' = Some (''t'', ''OLD'', []) \<and>
   ''OLD'' \<noteq> ''old'' \<and> ''OLD'' \<noteq> ''/old'' \<and>
   updatePageReferences (\<lambda>oldPath newPath content. None) ''old'' ''new''
     [FileEntry ''p.md'' ''[t](OLD)''] =
     ([FileEntry ''p.md'' ''[t](new)''], [''p''], True)"
  by code_simp

section \<open>Renaming a page\<close>

text \<open>
  The answers of the rename handler, in the order of its tests. After the tests, the only
  failure left is the server error of an exception: the pages directory cannot be listed,
  or the engine of regular expressions refuses a pattern. The rename of the file itself
  cannot fail then.
\<close>

lemma renamePage_cascade:
  "fst (renamePage engine pagesDir st oldPath newName) =
     (if oldPath = [] \<or> newName = [] then Inl Required
      else if oldPath = ''home'' then Inl Forbidden
      else if \<not> validName newName then Inl InvalidName
      else if pageExists pagesDir (files st) (renamedPath oldPath newName) then Inl AlreadyExists
      else if \<not> pageExists pagesDir (files st) oldPath then Inl NotFound
      else (case lookupPath pagesDir (files st) of
              Some (DirEntry n pages) \<Rightarrow>
                (case updatePageReferences engine oldPath (renamedPath oldPath newName) pages of
                   (pages', updatedPages, ok) \<Rightarrow>
                     if ok then Inr (renamedPath oldPath newName, updatedPages)
                     else Inl ServerError)
            | _ \<Rightarrow> Inl ServerError))"
proof -
  let ?newPath = "renamedPath oldPath newName"
  let ?old = "absPath pagesDir (oldPath @ ''.md'')"
  let ?new = "absPath pagesDir (?newPath @ ''.md'')"
  let ?ok = "oldPath \<noteq> [] \<and> newName \<noteq> [] \<and> oldPath \<noteq> ''home'' \<and> validName newName \<and>
     \<not> pageExists pagesDir (files st) ?newPath \<and> pageExists pagesDir (files st) oldPath"
  show ?thesis
  proof (cases ?ok)
    case False
    then show ?thesis
      by (auto simp: renamePage_def Let_def pageExists_def)
  next
    case ok: True
    then have c: "oldPath \<noteq> []" "newName \<noteq> []" "oldPath \<noteq> ''home''" "validName newName"
      "\<not> pageExists pagesDir (files st) ?newPath"
      "lookupPath ?old (files st) \<noteq> None" "pageExists pagesDir (files st) oldPath"
      by (simp_all add: pageExists_def)
    show ?thesis
    proof (cases "lookupPath pagesDir (files st)")
      case None
      then show ?thesis
        unfolding renamePage_def Let_def
        by (simp only: c if_False if_True simp_thms not_False_eq_True option.case fst_conv)
    next
      case (Some e)
      show ?thesis
      proof (cases e)
        case (FileEntry name content)
        with Some show ?thesis
          unfolding renamePage_def Let_def
          by (simp only: c if_False if_True simp_thms not_False_eq_True option.case dirent.case
                fst_conv)
      next
        case (DirEntry n pages)
        with Some have dir: "lookupPath pagesDir (files st) = Some (DirEntry n pages)" by simp
        obtain pages' ups ok where
          u: "updatePageReferences engine oldPath ?newPath pages = (pages', ups, ok)"
          by (cases "updatePageReferences engine oldPath ?newPath pages")
        let ?fs1 = "updateDir pagesDir (\<lambda>es. pages') (files st)"
        show ?thesis
        proof (cases ok)
          case False
          show ?thesis
            unfolding renamePage_def Let_def
            by (simp only: c dir u False if_False if_True simp_thms not_False_eq_True
                  option.case dirent.case prod.case fst_conv)
        next
          case True
          have "map shape pages' = map shape pages"
            using shape_updateDirectory [of engine oldPath ?newPath pages "[]"] u
            by (simp add: updatePageReferences_def)
          then have sh: "shape ?fs1 = shape (files st)"
            using dir by (rule shape_updateDir [rotated])
          from c have "lookupPath ?old (files st) \<noteq> None" "lookupPath ?new (files st) = None"
            by (simp_all add: pageExists_def)
          then have "lookupPath ?old ?fs1 \<noteq> None" "lookupPath ?new ?fs1 = None"
            using shape_eq_lookup_None [OF sh] by simp_all
          moreover have "?old \<noteq> []" "?new \<noteq> []" by (simp_all add: absPath_md_nonempty)
          moreover have "butlast ?new = butlast ?old"
          proof -
            have "butlast ?new = normSegs (rev pagesDir) (butlast (splitOn (CHR ''/'') oldPath))"
              using c(4) by (simp add: absPath_renamed)
            moreover have "butlast ?old = normSegs (rev pagesDir) (butlast (splitOn (CHR ''/'') oldPath))"
              by (simp add: absPath_md)
            ultimately show ?thesis by simp
          qed
          ultimately have "fsRename ?old ?new ?fs1 \<noteq> None"
            using fsRename_succeeds [of ?old ?fs1 _ ?new] by auto
          then obtain fs2 where r: "fsRename ?old ?new ?fs1 = Some fs2" by auto
          show ?thesis
            unfolding renamePage_def Let_def
            by (simp only: c dir u r True if_False if_True simp_thms not_False_eq_True
                  option.case dirent.case prod.case fst_conv snd_conv)
        qed
      qed
    qed
  qed
qed

text \<open>For an old path that stands for itself in a pattern no pattern is refused, and the
  new path is the old path with only its last part replaced by the normal form of the new
  name.\<close>

lemma updatePageReferences_literal:
  "regexLiteral oldPath \<Longrightarrow> snd (snd (updatePageReferences engine oldPath newPath pages))"
  by (simp add: updatePageReferences_def updateDirectory_pages)

lemma renamePage_cascade_example:
  "fst (renamePage engine examplePagesDir exampleWiki ''guides'' ''Manuals'') =
     Inr (''manuals'', [''home'', ''guides/intro'']) \<and>
   renamedPath ''guides'' ''Manuals'' = ''manuals'' \<and>
   fst (renamePage engine examplePagesDir exampleWiki ''home'' ''start'') = Inl Forbidden \<and>
   fst (renamePage engine examplePagesDir exampleWiki ''home'' []) = Inl Required \<and>
   fst (renamePage engine examplePagesDir exampleWiki ''guides'' ''my page'') = Inl InvalidName \<and>
   fst (renamePage engine examplePagesDir exampleWiki ''guides'' ''HOME'') = Inl AlreadyExists \<and>
   fst (renamePage engine examplePagesDir exampleWiki ''missing'' ''other'') = Inl NotFound"
  by code_simp

text \<open>
  C5. The guard of the home page compares the old path of the request with the text
  \<^verbatim>\<open>home\<close>, and unlike the delete handler the rename handler does not remove a leading
  slash. For the old path \<^verbatim>\<open>/home\<close>, which \<^verbatim>\<open>path.join\<close> leads to the file of the home
  page, the answer is not \<open>Forbidden\<close>: the rename succeeds, the file \<^verbatim>\<open>home.md\<close> is gone
  and its content is at \<^verbatim>\<open>start.md\<close>. For the old path \<^verbatim>\<open>home\<close> itself the answer is
  \<open>Forbidden\<close>.
\<close>

theorem renamePage_slash_home:
  "fst (renamePage engine examplePagesDir exampleWiki ''/home'' ''start'') = Inr (''/start'', []) \<and>
   statPath [''srv'', ''wiki'', ''pages'', ''home.md'']
     (files (snd (renamePage engine examplePagesDir exampleWiki ''/home'' ''start''))) = None \<and>
   statPath [''srv'', ''wiki'', ''pages'', ''start.md'']
     (files (snd (renamePage engine examplePagesDir exampleWiki ''/home'' ''start''))) =
     statPath [''srv'', ''wiki'', ''pages'', ''home.md''] (files exampleWiki) \<and>
   statPath [''srv'', ''wiki'', ''pages'', ''home.md''] (files exampleWiki) =
     Some (IsFile ''see [[guides]] and [[Intro]] and [[notes]]'') \<and>
   fst (renamePage engine examplePagesDir exampleWiki ''home'' ''start'') = Inl Forbidden"
  by code_simp

section \<open>Deleting a page\<close>

text \<open>
  What the delete handler does. With the page path of the request (one leading slash
  removed), its markdown file and its folder: the answer is \<open>Forbidden\<close> exactly when the
  page path is the text \<^verbatim>\<open>home\<close>, and then nothing changes. For every other page path the handler succeeds; afterwards there
  is no file at the markdown file's path, no directory at the folder's path and nothing
  below the folder's path, every path outside these two is as it was, and the index is
  rebuilt from the new tree. Nothing of this asks that the file or the folder existed.
\<close>

lemma deletePage_effect:
  "let pagePath = stripSlash param;
       filePath = absPath pagesDir (pagePath @ ''.md'');
       folderPath = absPath pagesDir pagePath;
       res = deletePage pagesDir st param
   in (fst res = Inl Forbidden \<longleftrightarrow> pagePath = ''home'') \<and>
      (pagePath = ''home'' \<longrightarrow> snd res = st) \<and>
      (pagePath \<noteq> ''home'' \<longrightarrow>
         fst res = Inr () \<and>
         (\<forall>c. statPath filePath (files (snd res)) \<noteq> Some (IsFile c)) \<and>
         (folderPath \<noteq> [] \<longrightarrow> statPath folderPath (files (snd res)) \<noteq> Some IsDir) \<and>
         (\<forall>q. q \<noteq> [] \<longrightarrow> lookupPath (folderPath @ q) (files (snd res)) = None) \<and>
         (\<forall>q. \<not> prefix filePath q \<and> \<not> prefix folderPath q \<longrightarrow>
              statPath q (files (snd res)) = statPath q (files st)) \<and>
         pageIndex (snd res) = rebuildIndex pagesDir (files (snd res)))"
proof -
  define pagePath where "pagePath = stripSlash param"
  define filePath where "filePath = absPath pagesDir (pagePath @ ''.md'')"
  define folderPath where "folderPath = absPath pagesDir pagePath"
  define fs1 where "fs1 = (case unlink filePath (files st) of None \<Rightarrow> files st | Some f \<Rightarrow> f)"
  define fs2 where "fs2 = (case lookupPath folderPath fs1 of
                         Some (DirEntry n es) \<Rightarrow> removeEntry folderPath fs1
                       | _ \<Rightarrow> fs1)"
  have fne: "filePath \<noteq> []" unfolding filePath_def by (rule absPath_md_nonempty)
  have home: "pagePath = ''home'' \<Longrightarrow> deletePage pagesDir st param = (Inl Forbidden, st)"
    by (simp add: deletePage_def pagePath_def)
  have other: "pagePath \<noteq> ''home'' \<Longrightarrow> deletePage pagesDir st param =
      (Inr (), \<lparr>files = fs2, pageIndex = rebuildIndex pagesDir fs2\<rparr>)"
    unfolding fs2_def fs1_def folderPath_def filePath_def pagePath_def deletePage_def Let_def
    by simp
  have f1: "\<And>q. \<not> prefix filePath q \<Longrightarrow> statPath q fs1 = statPath q (files st)"
    by (auto simp: fs1_def unlink_def removeEntry_frame split: option.splits dirent.splits)
  have f2: "\<And>c. statPath filePath fs1 \<noteq> Some (IsFile c)"
  proof (cases "unlink filePath (files st)")
    case None
    then have "fs1 = files st" by (simp add: fs1_def)
    moreover from None have "\<And>n c. lookupPath filePath (files st) \<noteq> Some (FileEntry n c)"
      by (auto simp: unlink_def)
    ultimately show "\<And>c. statPath filePath fs1 \<noteq> Some (IsFile c)"
      by (auto simp: statPath_def statOf_IsFile)
  next
    case (Some f)
    then have "fs1 = removeEntry filePath (files st)"
      by (auto simp: fs1_def unlink_def split: option.splits dirent.splits)
    then have "lookupPath filePath fs1 = None"
      using removeEntry_gone [OF fne, of "[]" "files st"] by simp
    then show "\<And>c. statPath filePath fs1 \<noteq> Some (IsFile c)" by (simp add: statPath_def)
  qed
  have gone: "\<And>q. q \<noteq> [] \<Longrightarrow> lookupPath (folderPath @ q) fs2 = None"
  proof -
    fix q :: "string list"
    assume q: "q \<noteq> []"
    show "lookupPath (folderPath @ q) fs2 = None"
    proof (cases "lookupPath folderPath fs1")
      case None
      then show ?thesis by (simp add: fs2_def lookupPath_below_none)
    next
      case (Some e)
      show ?thesis
      proof (cases e)
        case (FileEntry n c)
        with Some q show ?thesis by (simp add: fs2_def lookupPath_below_file)
      next
        case (DirEntry n es)
        with Some have r: "fs2 = removeEntry folderPath fs1" by (simp add: fs2_def)
        show ?thesis
        proof (cases "folderPath = []")
          case True
          then show ?thesis using q r by (simp add: removeEntry_root_gone)
        next
          case False
          then show ?thesis using r by (simp add: removeEntry_gone)
        qed
      qed
    qed
  qed
  have nodir: "folderPath \<noteq> [] \<Longrightarrow> statPath folderPath fs2 \<noteq> Some IsDir"
  proof (cases "lookupPath folderPath fs1")
    case None
    then show ?thesis by (simp add: fs2_def statPath_def)
  next
    case (Some e)
    assume ne: "folderPath \<noteq> []"
    show ?thesis
    proof (cases e)
      case (FileEntry n c)
      with Some show ?thesis by (simp add: fs2_def statPath_def)
    next
      case (DirEntry n es)
      with Some have r: "fs2 = removeEntry folderPath fs1" by (simp add: fs2_def)
      then show ?thesis using removeEntry_gone [OF ne, of "[]" fs1] by (simp add: statPath_def)
    qed
  qed
  have frame2: "\<And>q. \<not> prefix folderPath q \<Longrightarrow> statPath q fs2 = statPath q fs1"
    by (auto simp: fs2_def removeEntry_frame split: option.splits dirent.splits)
  have nofile: "\<And>c. statPath filePath fs2 \<noteq> Some (IsFile c)"
  proof -
    fix c
    show "statPath filePath fs2 \<noteq> Some (IsFile c)"
    proof (cases "prefix folderPath filePath")
      case False
      then show ?thesis using frame2 f2 by simp
    next
      case True
      then obtain q where q: "filePath = folderPath @ q" by (auto simp: prefix_def)
      show ?thesis
      proof (cases "q = []")
        case False
        then show ?thesis using gone q by (simp add: statPath_def)
      next
        case True
        with q fne have ne: "folderPath \<noteq> []" and eq: "filePath = folderPath" by auto
        show ?thesis
        proof (cases "\<exists>n es. lookupPath folderPath fs1 = Some (DirEntry n es)")
          case True
          then have "fs2 = removeEntry folderPath fs1" by (auto simp: fs2_def)
          then show ?thesis using removeEntry_gone [OF ne, of "[]" fs1] eq
            by (simp add: statPath_def)
        next
          case False
          then have "fs2 = fs1" by (auto simp: fs2_def split: option.splits dirent.splits)
          then show ?thesis using f2 by simp
        qed
      qed
    qed
  qed
  have frame: "\<And>q. \<not> prefix filePath q \<and> \<not> prefix folderPath q \<Longrightarrow>
      statPath q fs2 = statPath q (files st)"
    using f1 frame2 by simp
  show ?thesis
  proof (cases "pagePath = ''home''")
    case True
    then show ?thesis using home
      unfolding Let_def pagePath_def [symmetric] by simp
  next
    case False
    then show ?thesis
      unfolding Let_def pagePath_def [symmetric] filePath_def [symmetric] folderPath_def [symmetric]
      using other nofile nodir gone frame by simp
  qed
qed

lemma deletePage_effect_example:
  "stripSlash ''guides'' \<noteq> ''home'' \<and>
   statPath [''srv'', ''wiki'', ''pages'', ''guides.md''] (files exampleWiki) = Some (IsFile ''the guides'') \<and>
   statPath [''srv'', ''wiki'', ''pages'', ''guides'', ''intro.md''] (files exampleWiki) \<noteq> None \<and>
   fst (deletePage examplePagesDir exampleWiki ''guides'') = Inr () \<and>
   statPath [''srv'', ''wiki'', ''pages'', ''guides.md'']
     (files (snd (deletePage examplePagesDir exampleWiki ''guides''))) = None \<and>
   lookupPath [''srv'', ''wiki'', ''pages'', ''guides'', ''intro.md'']
     (files (snd (deletePage examplePagesDir exampleWiki ''guides''))) = None \<and>
   fst (deletePage examplePagesDir exampleWiki ''missing'') = Inr ()"
proof -
  have n: "stripSlash ''guides'' \<noteq> ''home''" "stripSlash ''missing'' \<noteq> ''home''" by code_simp+
  have f: "absPath examplePagesDir (stripSlash ''guides'') = [''srv'', ''wiki'', ''pages'', ''guides'']"
    by code_simp
  have b: "statPath [''srv'', ''wiki'', ''pages'', ''guides.md''] (files exampleWiki) = Some (IsFile ''the guides'')"
    "statPath [''srv'', ''wiki'', ''pages'', ''guides'', ''intro.md''] (files exampleWiki) \<noteq> None"
    by code_simp+
  have a: "statPath [''srv'', ''wiki'', ''pages'', ''guides.md'']
     (files (snd (deletePage examplePagesDir exampleWiki ''guides''))) = None"
    by code_simp
  have "lookupPath (absPath examplePagesDir (stripSlash ''guides'') @ [''intro.md''])
     (files (snd (deletePage examplePagesDir exampleWiki ''guides''))) = None"
    using deletePage_effect [of "''guides''" examplePagesDir exampleWiki] n(1)
    unfolding Let_def by blast
  moreover have "fst (deletePage examplePagesDir exampleWiki ''guides'') = Inr ()"
    using deletePage_effect [of "''guides''" examplePagesDir exampleWiki] n(1)
    unfolding Let_def by blast
  moreover have "fst (deletePage examplePagesDir exampleWiki ''missing'') = Inr ()"
    using deletePage_effect [of "''missing''" examplePagesDir exampleWiki] n(2)
    unfolding Let_def by blast
  ultimately show ?thesis using n(1) f a b by simp
qed

text \<open>
  C6. The guard of the home page compares the text of the page path with \<^verbatim>\<open>home\<close>,
  after the removal of one leading slash. For the page paths \<^verbatim>\<open>./home\<close>, \<^verbatim>\<open>/home\<close>
  (the parameter \<^verbatim>\<open>//home\<close>) and \<^verbatim>\<open>x/../home\<close>, which \<^verbatim>\<open>path.join\<close> leads to the file
  of the home page, the answer is not \<open>Forbidden\<close>: the handler succeeds and the file
  \<^verbatim>\<open>home.md\<close>, which was there, is gone. For the empty page path the folder is the pages
  directory itself, and the handler succeeds and removes it with every page.
\<close>

theorem deletePage_home_bypass:
  "statPath [''srv'', ''wiki'', ''pages'', ''home.md''] (files exampleWiki) =
     Some (IsFile ''see [[guides]] and [[Intro]] and [[notes]]'') \<and>
   fst (deletePage examplePagesDir exampleWiki ''./home'') = Inr () \<and>
   statPath [''srv'', ''wiki'', ''pages'', ''home.md'']
     (files (snd (deletePage examplePagesDir exampleWiki ''./home''))) = None \<and>
   fst (deletePage examplePagesDir exampleWiki ''//home'') = Inr () \<and>
   statPath [''srv'', ''wiki'', ''pages'', ''home.md'']
     (files (snd (deletePage examplePagesDir exampleWiki ''//home''))) = None \<and>
   fst (deletePage examplePagesDir exampleWiki ''x/../home'') = Inr () \<and>
   statPath [''srv'', ''wiki'', ''pages'', ''home.md'']
     (files (snd (deletePage examplePagesDir exampleWiki ''x/../home''))) = None \<and>
   fst (deletePage examplePagesDir exampleWiki []) = Inr () \<and>
   statPath [''srv'', ''wiki'', ''pages'']
     (files (snd (deletePage examplePagesDir exampleWiki []))) = None \<and>
   fst (deletePage examplePagesDir exampleWiki ''/home'') = Inl Forbidden"
  by code_simp

section \<open>Body and footer\<close>

lemma matchHrAt_iff:
  "matchHrAt s = Some r \<longleftrightarrow> (\<exists>k\<ge>3. s = nl # replicate k (CHR ''-'') @ nl # r)"
proof
  assume a: "matchHrAt s = Some r"
  then obtain c cs where s: "s = c # cs" by (cases s) (auto simp: matchHrAt_def)
  let ?h = "takeWhile (\<lambda>x. x = CHR ''-'') cs"
  let ?r = "dropWhile (\<lambda>x. x = CHR ''-'') cs"
  from a s have c: "c = nl" and h: "3 \<le> length ?h" and r: "?r \<noteq> []" "hd ?r = nl" "r = tl ?r"
    by (auto simp: matchHrAt_def Let_def split: if_splits)
  have "\<forall>x\<in>set ?h. x = CHR ''-''" by (auto dest: set_takeWhileD)
  then have "?h = replicate (length ?h) (CHR ''-'')"
    by (metis replicate_length_same)
  moreover have "?r = nl # r" using r by (cases ?r) auto
  moreover have "cs = ?h @ ?r" by simp
  ultimately have "s = nl # replicate (length ?h) (CHR ''-'') @ nl # r"
    using s c by metis
  with h show "\<exists>k\<ge>3. s = nl # replicate k (CHR ''-'') @ nl # r" by blast
next
  assume "\<exists>k\<ge>3. s = nl # replicate k (CHR ''-'') @ nl # r"
  then obtain k where k: "3 \<le> k" and s: "s = nl # replicate k (CHR ''-'') @ nl # r" by blast
  have n: "nl \<noteq> CHR ''-''" by (simp add: nl_def)
  have t: "takeWhile (\<lambda>x. x = CHR ''-'') (replicate k (CHR ''-'') @ nl # r) = replicate k (CHR ''-'')"
    using n by (induction k) auto
  have d: "dropWhile (\<lambda>x. x = CHR ''-'') (replicate k (CHR ''-'') @ nl # r) = nl # r"
    using n by (induction k) auto
  show "matchHrAt s = Some r"
    using k n by (simp add: matchHrAt_def s t d)
qed

lemma matchHrAt_append: "matchHrAt s = Some r \<Longrightarrow> matchHrAt (s @ y) = Some (r @ y)"
  unfolding matchHrAt_iff by auto

lemma matchHrAt_None_prefix: "matchHrAt (s @ y) = None \<Longrightarrow> matchHrAt s = None"
  using matchHrAt_append [of s _ y] by (cases "matchHrAt s") auto

lemma isHr_append: "isHr d \<Longrightarrow> matchHrAt (d @ x) = Some x"
  using matchHrAt_append [of d "[]" x] by (simp add: isHr_def)

lemma matchHrAt_decomp: "matchHrAt s = Some r \<Longrightarrow> \<exists>d. isHr d \<and> s = d @ r"
proof -
  assume "matchHrAt s = Some r"
  then obtain k where k: "3 \<le> k" "s = nl # replicate k (CHR ''-'') @ nl # r"
    unfolding matchHrAt_iff by blast
  then have "isHr (nl # replicate k (CHR ''-'') @ [nl])"
    unfolding isHr_def matchHrAt_iff by auto
  with k show ?thesis by (intro exI [of _ "nl # replicate k (CHR ''-'') @ [nl]"]) simp
qed

lemma splitHr_nonempty: "splitHr s \<noteq> []"
  by (induction s rule: splitHr.induct) (auto split: option.splits list.splits)

lemma splitHr_noHr: "\<not> hasHr s \<Longrightarrow> splitHr s = [s]"
  by (induction s rule: splitHr.induct) (auto split: option.splits list.splits)

lemma splitHr_length: "hasHr s \<Longrightarrow> 1 < length (splitHr s)"
proof (induction s rule: splitHr.induct)
  case 1
  then show ?case by simp
next
  case (2 c cs)
  show ?case
  proof (cases "matchHrAt (c # cs)")
    case None
    with 2 have "1 < length (splitHr cs)" by simp
    with None show ?thesis by (auto split: list.splits)
  next
    case (Some rest)
    then show ?thesis using splitHr_nonempty [of rest] by (cases "splitHr rest") auto
  qed
qed

lemma splitHr_last_noHr: "\<not> hasHr (last (splitHr s))"
proof (induction s rule: splitHr.induct)
  case 1
  then show ?case by simp
next
  case (2 c cs)
  show ?case
  proof (cases "matchHrAt (c # cs)")
    case None
    show ?thesis
    proof (cases "hasHr cs")
      case True
      from splitHr_length [OF True] obtain p q ps where ps: "splitHr cs = p # q # ps"
        by (cases "splitHr cs") (auto simp: neq_Nil_conv)
      with 2(1) [OF None] None show ?thesis by simp
    next
      case False
      with None have "\<not> hasHr (c # cs)" by simp
      then show ?thesis using splitHr_noHr [of "c # cs"] by simp
    qed
  next
    case (Some rest)
    with 2(2) [OF Some] splitHr_nonempty [of rest] show ?thesis by simp
  qed
qed

lemma splitHr_decomp:
  "hasHr s \<Longrightarrow> \<exists>a d. isHr d \<and> s = a @ d @ last (splitHr s) \<and> butlast (splitHr s) = splitHr a"
proof (induction s rule: splitHr.induct)
  case 1
  then show ?case by simp
next
  case (2 c cs)
  show ?case
  proof (cases "matchHrAt (c # cs)")
    case None
    with 2(3) have h: "hasHr cs" by simp
    from 2(1) [OF None h] obtain a d where
      ad: "isHr d" "cs = a @ d @ last (splitHr cs)" "butlast (splitHr cs) = splitHr a"
      by blast
    from splitHr_length [OF h] obtain p q ps where ps: "splitHr cs = p # q # ps"
      by (cases "splitHr cs") (auto simp: neq_Nil_conv)
    have "matchHrAt ((c # a) @ d @ last (splitHr cs)) = None" using None ad(2) by simp
    then have n: "matchHrAt (c # a) = None" by (rule matchHrAt_None_prefix)
    have sa: "splitHr a = p # butlast (q # ps)" using ad(3) ps by simp
    have "butlast (splitHr (c # cs)) = splitHr (c # a)"
      using None n ps sa by simp
    moreover have "c # cs = (c # a) @ d @ last (splitHr (c # cs))"
      using ad(2) None ps by simp
    ultimately show ?thesis using ad(1) by blast
  next
    case (Some rest)
    from matchHrAt_decomp [OF Some] obtain d0 where d0: "isHr d0" "c # cs = d0 @ rest" by blast
    have sp: "splitHr (c # cs) = [] # splitHr rest" using Some by simp
    show ?thesis
    proof (cases "hasHr rest")
      case False
      then have "splitHr rest = [rest]" by (rule splitHr_noHr)
      with sp have l: "last (splitHr (c # cs)) = rest"
        and b: "butlast (splitHr (c # cs)) = splitHr []" by simp_all
      have "c # cs = [] @ d0 @ last (splitHr (c # cs))" unfolding l using d0(2) by simp
      with d0(1) b show ?thesis by blast
    next
      case True
      from 2(2) [OF Some True] obtain a d where
        ad: "isHr d" "rest = a @ d @ last (splitHr rest)" "butlast (splitHr rest) = splitHr a"
        by blast
      have ne: "splitHr rest \<noteq> []" by (rule splitHr_nonempty)
      have m: "matchHrAt (d0 @ a) = Some a" using d0(1) by (rule isHr_append)
      have "d0 \<noteq> []" using d0(1) by (auto simp: isHr_def matchHrAt_def)
      then obtain e es where e: "d0 @ a = e # es" by (cases d0) auto
      have "splitHr (d0 @ a) = [] # splitHr a" using m unfolding e by simp
      then have "butlast (splitHr (c # cs)) = splitHr (d0 @ a)"
        using sp ne ad(3) by simp
      moreover have l: "last (splitHr (c # cs)) = last (splitHr rest)"
        using sp ne by simp
      have "c # cs = (d0 @ a) @ d @ last (splitHr (c # cs))"
        unfolding l using d0(2) ad(2) by simp
      ultimately show ?thesis using ad(1) by blast
    qed
  qed
qed

lemma joinWith_splitHr: "joinWith hrSep (splitHr s) = shortenHr s"
proof (induction s rule: splitHr.induct)
  case 1
  then show ?case by simp
next
  case (2 c cs)
  show ?case
  proof (cases "matchHrAt (c # cs)")
    case None
    obtain p ps where ps: "splitHr cs = p # ps"
      using splitHr_nonempty [of cs] by (cases "splitHr cs") auto
    have "joinWith hrSep ((c # p) # ps) = c # joinWith hrSep (p # ps)"
      by (cases ps) auto
    with 2(1) [OF None] None ps show ?thesis by simp
  next
    case (Some rest)
    obtain p ps where ps: "splitHr rest = p # ps"
      using splitHr_nonempty [of rest] by (cases "splitHr rest") auto
    with 2(2) [OF Some] Some show ?thesis by simp
  qed
qed

text \<open>The pieces of the split and the last delimiter of the scan.\<close>

lemma lastDelimiter_decomp:
  "lastDelimiter s = Some (a, f) \<Longrightarrow> \<exists>d. isHr d \<and> s = a @ d @ f"
proof (induction s arbitrary: a f rule: lastDelimiter.induct)
  case 1
  then show ?case by simp
next
  case (2 c cs)
  show ?case
  proof (cases "matchHrAt (c # cs)")
    case None
    with 2(3) obtain a' where a': "lastDelimiter cs = Some (a', f)" "a = c # a'"
      by (auto split: option.splits)
    from 2(1) [OF None a'(1)] obtain d where "isHr d" "cs = a' @ d @ f" by blast
    with a'(2) show ?thesis by auto
  next
    case (Some rest)
    from matchHrAt_decomp [OF Some] obtain d0 where d0: "isHr d0" "c # cs = d0 @ rest" by blast
    have tk: "take (length (c # cs) - length rest) (c # cs) = d0" unfolding d0(2) by simp
    show ?thesis
    proof (cases "lastDelimiter rest")
      case None
      with 2(3) Some have "a = []" "f = rest" by simp_all
      with d0 show ?thesis by auto
    next
      case (Some af)
      obtain a' f' where af: "af = (a', f')" by (cases af)
      from 2(3) \<open>matchHrAt (c # cs) = Some rest\<close> Some af tk
      have e: "a = d0 @ a'" "f = f'" by simp_all
      from 2(2) [OF \<open>matchHrAt (c # cs) = Some rest\<close>, of a' f'] Some af
      obtain d where "isHr d" "rest = a' @ d @ f'" by auto
      with e d0(2) show ?thesis by auto
    qed
  qed
qed

lemma lastDelimiter_splitHr:
  "(case lastDelimiter s of
      None \<Rightarrow> splitHr s = [s]
    | Some (a, f) \<Rightarrow> splitHr s = splitHr a @ [f])"
proof (induction s rule: lastDelimiter.induct)
  case 1
  then show ?case by simp
next
  case (2 c cs)
  show ?case
  proof (cases "matchHrAt (c # cs)")
    case None
    show ?thesis
    proof (cases "lastDelimiter cs")
      case n: None
      with 2(1) [OF None] have "splitHr cs = [cs]" by simp
      with None n show ?thesis by simp
    next
      case (Some af)
      obtain a f where af: "af = (a, f)" by (cases af)
      with 2(1) [OF None] Some have ih: "splitHr cs = splitHr a @ [f]" by simp
      from lastDelimiter_decomp [of cs a f] Some af obtain d where d: "cs = a @ d @ f" by auto
      have "matchHrAt ((c # a) @ d @ f) = None" using None d by simp
      then have n: "matchHrAt (c # a) = None" by (rule matchHrAt_None_prefix)
      obtain p ps where ps: "splitHr a = p # ps"
        using splitHr_nonempty [of a] by (cases "splitHr a") auto
      have "splitHr (c # cs) = splitHr (c # a) @ [f]"
        using None n ih ps by simp
      with None Some af show ?thesis by simp
    qed
  next
    case (Some rest)
    from matchHrAt_decomp [OF Some] obtain d0 where d0: "isHr d0" "c # cs = d0 @ rest" by blast
    have tk: "take (length (c # cs) - length rest) (c # cs) = d0" unfolding d0(2) by simp
    have sp: "splitHr (c # cs) = [] # splitHr rest" using Some by simp
    show ?thesis
    proof (cases "lastDelimiter rest")
      case None
      with 2(2) [OF Some] have "splitHr rest = [rest]" by simp
      with sp Some None show ?thesis by simp
    next
      case s: (Some af)
      obtain a f where af: "af = (a, f)" by (cases af)
      with 2(2) [OF Some] s have ih: "splitHr rest = splitHr a @ [f]" by simp
      have m: "matchHrAt (d0 @ a) = Some a" using d0(1) by (rule isHr_append)
      have "d0 \<noteq> []" using d0(1) by (auto simp: isHr_def matchHrAt_def)
      then obtain e es where e: "d0 @ a = e # es" by (cases d0) auto
      have "splitHr (d0 @ a) = [] # splitHr a" using m unfolding e by simp
      then have "splitHr (c # cs) = splitHr (d0 @ a) @ [f]" using sp ih by simp
      moreover have "lastDelimiter (c # cs) = Some (d0 @ a, f)"
        using Some s af tk by simp
      ultimately show ?thesis by simp
    qed
  qed
qed

lemma lastDelimiter_None_iff: "lastDelimiter s = None \<longleftrightarrow> \<not> hasHr s"
proof
  assume "lastDelimiter s = None"
  with lastDelimiter_splitHr [of s] have "splitHr s = [s]" by simp
  then show "\<not> hasHr s" using splitHr_length [of s] by auto
next
  assume n: "\<not> hasHr s"
  show "lastDelimiter s = None"
  proof (cases "lastDelimiter s")
    case (Some af)
    obtain a f where "af = (a, f)" by (cases af)
    with lastDelimiter_splitHr [of s] Some have "splitHr s = splitHr a @ [f]" by simp
    moreover have "splitHr s = [s]" using n by (rule splitHr_noHr)
    ultimately show ?thesis using splitHr_nonempty [of a] by simp
  qed simp
qed

text \<open>
  C7 (as the code has it). The page handler looks for the matches of a line feed, three or
  more hyphens and a line feed, from left to right, each search starting where the match
  before ended. Without a match the body is the whole content and the footer is empty.
  Otherwise the footer is the text after the last of these matches, and the body is the
  text before that match with every earlier delimiter written with exactly three hyphens.
  The last match is a delimiter between the two texts, there is one exactly when the
  pattern matches somewhere in the content, and the footer has no delimiter.
\<close>

theorem splitFooter_spec:
  "splitFooter content =
     (case lastDelimiter content of
        None \<Rightarrow> (content, [])
      | Some (a, footer) \<Rightarrow> (shortenHr a, footer)) \<and>
   (lastDelimiter content = None \<longleftrightarrow> \<not> hasHr content) \<and>
   (\<forall>a footer. lastDelimiter content = Some (a, footer) \<longrightarrow>
      (\<exists>d. isHr d \<and> content = a @ d @ footer) \<and> \<not> hasHr footer)"
proof (intro conjI allI impI)
  show "splitFooter content =
     (case lastDelimiter content of
        None \<Rightarrow> (content, [])
      | Some (a, footer) \<Rightarrow> (shortenHr a, footer))"
  proof (cases "lastDelimiter content")
    case None
    with lastDelimiter_splitHr [of content] have "splitHr content = [content]" by simp
    with None show ?thesis by (simp add: splitFooter_def)
  next
    case (Some af)
    obtain a f where af: "af = (a, f)" by (cases af)
    with lastDelimiter_splitHr [of content] Some
    have s: "splitHr content = splitHr a @ [f]" by simp
    have "1 < length (splitHr content)"
      unfolding s using splitHr_nonempty [of a] by (cases "splitHr a") auto
    then have "splitFooter content = (joinWith hrSep (splitHr a), f)"
      unfolding splitFooter_def Let_def s by (simp add: butlast_append)
    with Some af show ?thesis by (simp add: joinWith_splitHr)
  qed
next
  show "lastDelimiter content = None \<longleftrightarrow> \<not> hasHr content" by (rule lastDelimiter_None_iff)
next
  fix a footer
  assume l: "lastDelimiter content = Some (a, footer)"
  then show "\<exists>d. isHr d \<and> content = a @ d @ footer" by (rule lastDelimiter_decomp)
  from lastDelimiter_splitHr [of content] l have "last (splitHr content) = footer" by simp
  then show "\<not> hasHr footer" using splitHr_last_noHr [of content] by simp
qed

theorem splitFooter_spec_witness:
  "lastDelimiter ''x\<newline>---\<newline>---\<newline>y'' = Some (''x'', ''---\<newline>y'') \<and>
   splitFooter ''x\<newline>---\<newline>---\<newline>y'' = (''x'', ''---\<newline>y'') \<and>
   (\<exists>d. isHr d \<and> ''x\<newline>---\<newline>---\<newline>y'' = ''x'' @ d @ ''---\<newline>y'') \<and>
   \<not> hasHr ''---\<newline>y'' \<and>
   lastDelimiter ''a\<newline>-----\<newline>b\<newline>---\<newline>c'' = Some (''a\<newline>-----\<newline>b'', ''c'') \<and>
   splitFooter ''a\<newline>-----\<newline>b\<newline>---\<newline>c'' = (shortenHr ''a\<newline>-----\<newline>b'', ''c'') \<and>
   shortenHr ''a\<newline>-----\<newline>b'' = ''a\<newline>---\<newline>b''"
proof -
  have l: "lastDelimiter ''x\<newline>---\<newline>---\<newline>y'' = Some (''x'', ''---\<newline>y'')"
    "lastDelimiter ''a\<newline>-----\<newline>b\<newline>---\<newline>c'' = Some (''a\<newline>-----\<newline>b'', ''c'')"
    by code_simp+
  have s: "shortenHr ''x'' = ''x''" "shortenHr ''a\<newline>-----\<newline>b'' = ''a\<newline>---\<newline>b''"
    by code_simp+
  show ?thesis
    using splitFooter_spec [of "''x\<newline>---\<newline>---\<newline>y''"]
      splitFooter_spec [of "''a\<newline>-----\<newline>b\<newline>---\<newline>c''"] l s
    by simp
qed

text \<open>
  C7 as stated fails: the body is not always the text before the last delimiter. With an
  earlier delimiter of five hyphens the body is not even a prefix of the content. And a
  line of hyphens splits the content without blank lines around it.
\<close>

theorem splitFooter_body_counterexample:
  "splitFooter ''a\<newline>-----\<newline>b\<newline>---\<newline>c'' = (''a\<newline>---\<newline>b'', ''c'') \<and>
   \<not> prefix (fst (splitFooter ''a\<newline>-----\<newline>b\<newline>---\<newline>c''))
       ''a\<newline>-----\<newline>b\<newline>---\<newline>c'' \<and>
   splitFooter ''a\<newline>---\<newline>b'' = (''a'', ''b'')"
  by code_simp

section \<open>Target and display text of a wikilink\<close>

text \<open>
  C8 (as the code has it). The text between the brackets is first trimmed. When it has a
  vertical bar, it is split at every bar: the target is the normal form of the trimmed text
  before the first bar, and the display text is the trimmed text between the first bar and
  the second (or the end, when there is no second bar). Without a bar, the display text is
  the trimmed text and the target is its normal form.
\<close>

theorem parseInner_split:
  "parseInner inner =
     (let t = trim inner
      in if CHR ''|'' \<in> set t
         then (normalize (trim (takeWhile (\<lambda>c. c \<noteq> CHR ''|'') t)),
               trim (takeWhile (\<lambda>c. c \<noteq> CHR ''|'')
                      (tl (dropWhile (\<lambda>c. c \<noteq> CHR ''|'') t))))
         else (normalize t, t))"
  by (simp add: parseInner_def Let_def splitOn_nth0 splitOn_nth1)

theorem parseInner_split_witness:
  "parseInner ''  My  Page | The  Page | x '' = (''my-page'', ''The  Page'')"
  using parseInner_split [of "''  My  Page | The  Page | x ''"]
  by code_simp

text \<open>
  C8 as stated fails: without a bar the display text is the trimmed text, not the text as
  written, and with two bars the display text ends at the second bar.
\<close>

theorem parseInner_display_counterexample:
  "snd (parseInner '' Atari '') \<noteq> '' Atari '' \<and> snd (parseInner ''a|b|c'') \<noteq> ''b|c''"
  by code_simp

section \<open>Entries that start with a dot\<close>

text \<open>
  C9 at a markdown file inside a directory whose name starts with a dot, and at a markdown
  file whose own name starts with a dot: the scan of the index does not skip them, and
  both get their keys.
\<close>

theorem buildPageIndex_dot_entries:
  "buildPageIndex [DirEntry ''.drafts'' [FileEntry ''secret.md'' ''text'']] ''secret'' =
     Some ''.drafts/secret'' \<and>
   buildPageIndex [FileEntry ''.hidden.md'' ''text''] ''.hidden'' = Some ''.hidden''"
  by code_simp

section \<open>Saving a page\<close>

text \<open>
  C10. Saving a page leaves the index as it was, whatever the path and whatever the
  response: every lookup and every resolution of wikilinks gives the same result before
  and after. When the save succeeds, the file of the page holds the saved content, also
  when the page did not exist before.
\<close>

theorem savePage_keeps_index:
  "pageIndex (snd (savePage pagesDir st param content)) = pageIndex st \<and>
   (\<forall>k. indexGet (pageIndex (snd (savePage pagesDir st param content))) k = indexGet (pageIndex st) k) \<and>
   (\<forall>text cur. processWikilinks (pageIndex (snd (savePage pagesDir st param content))) text cur =
      processWikilinks (pageIndex st) text cur) \<and>
   (\<forall>pagePath. fst (savePage pagesDir st param content) = Inr pagePath \<longrightarrow>
      pagePath = stripSlash (if param = [] then ''home'' else param) \<and>
      statPath (absPath pagesDir (pagePath @ ''.md'')) (files (snd (savePage pagesDir st param content))) =
        Some (IsFile content))"
proof -
  have i: "pageIndex (snd (savePage pagesDir st param content)) = pageIndex st"
    by (simp add: savePage_def Let_def split: option.splits)
  have w: "\<And>pagePath. fst (savePage pagesDir st param content) = Inr pagePath \<Longrightarrow>
      pagePath = stripSlash (if param = [] then ''home'' else param) \<and>
      statPath (absPath pagesDir (pagePath @ ''.md'')) (files (snd (savePage pagesDir st param content))) =
        Some (IsFile content)"
    by (auto simp: savePage_def Let_def writeFile_stat split: option.splits if_splits)
  show ?thesis using i w by simp
qed

theorem savePage_keeps_index_witness:
  "statPath [''srv'', ''wiki'', ''pages'', ''notes.md''] (files exampleWiki) = None \<and>
   fst (savePage examplePagesDir exampleWiki ''notes'' ''hello'') = Inr ''notes'' \<and>
   statPath [''srv'', ''wiki'', ''pages'', ''notes.md'']
     (files (snd (savePage examplePagesDir exampleWiki ''notes'' ''hello''))) = Some (IsFile ''hello'') \<and>
   indexGet (pageIndex (snd (savePage examplePagesDir exampleWiki ''notes'' ''hello''))) ''notes'' = None \<and>
   processWikilinks (pageIndex (snd (savePage examplePagesDir exampleWiki ''notes'' ''hello'')))
     ''[[notes]]'' (Some ''home'') =
     linkHtml ''notes'' False ''notes''"
proof -
  have b: "statPath [''srv'', ''wiki'', ''pages'', ''notes.md''] (files exampleWiki) = None"
    by code_simp
  have r: "fst (savePage examplePagesDir exampleWiki ''notes'' ''hello'') = Inr ''notes''"
    by code_simp
  have p: "absPath examplePagesDir (''notes'' @ ''.md'') = [''srv'', ''wiki'', ''pages'', ''notes.md'']"
    by code_simp
  have g: "indexGet (pageIndex exampleWiki) ''notes'' = None" by code_simp
  have w: "processWikilinks (pageIndex exampleWiki) ''[[notes]]'' (Some ''home'') =
      linkHtml ''notes'' False ''notes''"
    by code_simp
  show ?thesis
    using savePage_keeps_index [of examplePagesDir exampleWiki "''notes''" "''hello''"] b r p g w
    by simp
qed

end
